theory Spec2Isabelle
  imports Complex_Main "HOL-Library.Multiset"
begin

section \<open>The grid maze model (class Maze)\<close>

text \<open>
  A coordinate is the object \<^verbatim>\<open>{ row, col }\<close> of the source, here the pair
  \<open>(row, col)\<close>. The source keys its sets and maps by the string
  \<^verbatim>\<open>`${row},${col}`\<close>, which is an injective rendering of the pair of integers; the
  model keys them by the pair itself.

  A JavaScript array is modelled by its property map from integer keys to values:
  reading a missing key gives \<open>None\<close> (\<^verbatim>\<open>undefined\<close>), writing any key succeeds and
  extends the array, and reading or writing a property of \<^verbatim>\<open>undefined\<close> (a missing
  row of the grid) raises a TypeError.
\<close>

type_synonym coord = "int \<times> int"

type_synonym jsrow = "int \<Rightarrow> int option"

type_synonym jsgrid = "int \<Rightarrow> jsrow option"

datatype error = TypeError | RangeError | NaNDistance

record maze =
  rows :: int
  cols :: int
  grid :: jsgrid
  start :: coord
  endc :: coord

text \<open>\<^verbatim>\<open>this.grid[i][j] = v\<close>\<close>

definition grid_set :: "jsgrid \<Rightarrow> int \<Rightarrow> int \<Rightarrow> int \<Rightarrow> error + jsgrid" where
  "grid_set g i j v =
     (case g i of
        None \<Rightarrow> Inl TypeError
      | Some r \<Rightarrow> Inr (g(i \<mapsto> r(j \<mapsto> v))))"

text \<open>\<^verbatim>\<open>this.grid[i][j]\<close>\<close>

definition grid_get :: "jsgrid \<Rightarrow> int \<Rightarrow> int \<Rightarrow> error + int option" where
  "grid_get g i j =
     (case g i of
        None \<Rightarrow> Inl TypeError
      | Some r \<Rightarrow> Inr (r j))"

definition isValid :: "maze \<Rightarrow> int \<Rightarrow> int \<Rightarrow> bool" where
  "isValid m row col \<longleftrightarrow> row \<ge> 0 \<and> row < rows m \<and> col \<ge> 0 \<and> col < cols m"

definition directions :: "(int \<times> int) list" where
  "directions = [(-1, 0), (1, 0), (0, -1), (0, 1)]"

text \<open>
  The body of \<^verbatim>\<open>for (const dir of directions)\<close> in \<^verbatim>\<open>getNeighbors\<close>: the
  accumulator is the array \<^verbatim>\<open>neighbors\<close>, \<^verbatim>\<open>push\<close> appends at its end. The
  conjunction short-circuits, so the grid is read only at valid coordinates.
\<close>

fun getNeighbors_loop ::
  "maze \<Rightarrow> int \<Rightarrow> int \<Rightarrow> (int \<times> int) list \<Rightarrow> coord list \<Rightarrow> error + coord list" where
  "getNeighbors_loop m row col [] neighbors = Inr neighbors"
| "getNeighbors_loop m row col ((dr, dc) # dirs) neighbors =
     (let newRow = row + dr; newCol = col + dc in
      if isValid m newRow newCol then
        (case grid_get (grid m) newRow newCol of
           Inl e \<Rightarrow> Inl e
         | Inr v \<Rightarrow>
             if v \<noteq> Some 1
             then getNeighbors_loop m row col dirs (neighbors @ [(newRow, newCol)])
             else getNeighbors_loop m row col dirs neighbors)
      else getNeighbors_loop m row col dirs neighbors)"

definition getNeighbors :: "maze \<Rightarrow> int \<Rightarrow> int \<Rightarrow> error + coord list" where
  "getNeighbors m row col = getNeighbors_loop m row col directions []"

subsection \<open>Well-formed grids and the reading of a cell\<close>

text \<open>
  A grid has its rows when every row index below \<open>rows\<close> holds a row array; every
  grid that the constructor, \<^verbatim>\<open>initGrid\<close> or \<^verbatim>\<open>generatePerfect\<close> builds has them.
\<close>

definition has_rows :: "maze \<Rightarrow> bool" where
  "has_rows m \<longleftrightarrow> list_all (\<lambda>r. grid m r \<noteq> None) [0..rows m - 1]"

text \<open>A cell is walkable when it is not a wall: \<^verbatim>\<open>this.grid[r][c] !== 1\<close>.\<close>

definition walkable :: "maze \<Rightarrow> coord \<Rightarrow> bool" where
  "walkable m p \<longleftrightarrow> (case grid m (fst p) of None \<Rightarrow> False | Some r \<Rightarrow> r (snd p) \<noteq> Some 1)"

text \<open>
  A coordinate is within the bounds of the grid when its row index is one of
  \<open>0, \<dots>, rows - 1\<close> and its column index one of \<open>0, \<dots>, cols - 1\<close>.
\<close>

definition in_bounds :: "maze \<Rightarrow> coord \<Rightarrow> bool" where
  "in_bounds m p \<longleftrightarrow> 0 \<le> fst p \<and> fst p < rows m \<and> 0 \<le> snd p \<and> snd p < cols m"

lemma isValid_in_bounds: "isValid m row col \<longleftrightarrow> in_bounds m (row, col)"
  by (simp add: isValid_def in_bounds_def)

text \<open>The four candidate coordinates in the order up, down, left, right.\<close>

definition four_around :: "int \<Rightarrow> int \<Rightarrow> coord list" where
  "four_around row col = [(row - 1, col), (row + 1, col), (row, col - 1), (row, col + 1)]"

definition open_cell :: "maze \<Rightarrow> coord \<Rightarrow> bool" where
  "open_cell m p \<longleftrightarrow> in_bounds m p \<and> walkable m p"

text \<open>A JavaScript array literal as a property map.\<close>

definition array_of :: "'a list \<Rightarrow> int \<Rightarrow> 'a option" where
  "array_of xs = (\<lambda>i. if 0 \<le> i \<and> i < int (length xs) then Some (xs ! nat i) else None)"

definition grid_of :: "int list list \<Rightarrow> jsgrid" where
  "grid_of xss = array_of (map array_of xss)"

text \<open>A three by three grid whose only wall is the middle cell.\<close>

definition ring3 :: maze where
  "ring3 = \<lparr> rows = 3, cols = 3,
             grid = grid_of [[0, 0, 0], [0, 1, 0], [0, 0, 0]],
             start = (0, 0), endc = (2, 2) \<rparr>"

lemma has_rows_iff: "has_rows m \<longleftrightarrow> (\<forall>r. 0 \<le> r \<and> r < rows m \<longrightarrow> grid m r \<noteq> None)"
  by (auto simp: has_rows_def list_all_iff)

lemma grid_get_walkable:
  "grid m r \<noteq> None \<Longrightarrow> \<exists>v. grid_get (grid m) r c = Inr v \<and> (v \<noteq> Some 1 \<longleftrightarrow> walkable m (r, c))"
  by (auto simp: grid_get_def walkable_def)

lemma getNeighbors_loop_filter:
  assumes "has_rows m"
  shows "getNeighbors_loop m row col dirs acc =
         Inr (acc @ filter (open_cell m) (map (\<lambda>(dr, dc). (row + dr, col + dc)) dirs))"
proof (induction dirs arbitrary: acc)
  case Nil
  show ?case by simp
next
  case (Cons d dirs)
  obtain dr dc where d: "d = (dr, dc)" by (cases d)
  show ?case
  proof (cases "isValid m (row + dr) (col + dc)")
    case False
    then show ?thesis
      using Cons.IH by (simp add: d open_cell_def isValid_in_bounds)
  next
    case True
    then have "grid m (row + dr) \<noteq> None"
      using assms by (simp add: has_rows_iff isValid_def)
    from grid_get_walkable [OF this, of "col + dc"]
    obtain v where v: "grid_get (grid m) (row + dr) (col + dc) = Inr v"
      and w: "v \<noteq> Some 1 \<longleftrightarrow> walkable m (row + dr, col + dc)"
      by blast
    show ?thesis
      using True v w Cons.IH by (simp add: d open_cell_def isValid_in_bounds)
  qed
qed

text \<open>
  C6. On a grid that has its rows, \<^verbatim>\<open>getNeighbors(row, col)\<close> returns exactly those of
  the four coordinates up, down, left, right of \<open>(row, col)\<close> that are within the grid
  bounds, \<open>0 \<le> r < rows\<close> and \<open>0 \<le> c < cols\<close>, and whose cell is walkable, in the
  fixed order up, down, left, right. The result is a function of the grid and the
  coordinate alone, so every call gives the same list.
\<close>

lemma getNeighbors_open_cells:
  assumes "has_rows m"
  shows "getNeighbors m row col = Inr (filter (open_cell m) (four_around row col))"
  using getNeighbors_loop_filter [OF assms, of row col directions "[]"]
  by (simp add: getNeighbors_def directions_def four_around_def)

theorem getNeighbors_four_around:
  assumes "has_rows m"
  shows "getNeighbors m row col =
         Inr (filter (\<lambda>p. 0 \<le> fst p \<and> fst p < rows m \<and> 0 \<le> snd p \<and> snd p < cols m
                          \<and> walkable m p)
                (four_around row col))"
  using getNeighbors_open_cells [OF assms, of row col]
  by (simp add: open_cell_def [abs_def] in_bounds_def conj_assoc)

lemma has_rows_ring3: "has_rows ring3"
  by (simp add: has_rows_iff ring3_def grid_of_def array_of_def)

theorem getNeighbors_four_around_witness:
  "has_rows ring3 \<and> getNeighbors ring3 1 2 = Inr [(0, 2), (2, 2)]
   \<and> getNeighbors ring3 0 1 = Inr [(0, 0), (0, 2)]"
proof -
  have "filter (\<lambda>p. 0 \<le> fst p \<and> fst p < rows ring3 \<and> 0 \<le> snd p \<and> snd p < cols ring3
                    \<and> walkable ring3 p) (four_around 1 2) = [(0, 2), (2, 2)]"
    by (simp add: four_around_def walkable_def ring3_def grid_of_def array_of_def)
  moreover
  have "filter (\<lambda>p. 0 \<le> fst p \<and> fst p < rows ring3 \<and> 0 \<le> snd p \<and> snd p < cols ring3
                    \<and> walkable ring3 p) (four_around 0 1) = [(0, 0), (0, 2)]"
    by (simp add: four_around_def walkable_def ring3_def grid_of_def array_of_def)
  ultimately show ?thesis
    using getNeighbors_four_around [OF has_rows_ring3, of 1 2]
      getNeighbors_four_around [OF has_rows_ring3, of 0 1] has_rows_ring3 by simp
qed


section \<open>Construction and editing of a maze\<close>

text \<open>
  \<^verbatim>\<open>initGrid\<close>: the outer loop stores a fresh row array at every index below \<open>rows\<close>, the
  inner loop fills it, then the start and end cells are cleared.
\<close>

definition border_value :: "maze \<Rightarrow> int \<Rightarrow> int \<Rightarrow> int" where
  "border_value m i j = (if i = 0 \<or> i = rows m - 1 \<or> j = 0 \<or> j = cols m - 1 then 1 else 0)"

definition initGrid_row :: "maze \<Rightarrow> int \<Rightarrow> jsrow" where
  "initGrid_row m i = fold (\<lambda>j r. r(j \<mapsto> border_value m i j)) [0..cols m - 1] Map.empty"

definition initGrid_rows :: "maze \<Rightarrow> jsgrid" where
  "initGrid_rows m = fold (\<lambda>i g. g(i \<mapsto> initGrid_row m i)) [0..rows m - 1] Map.empty"

definition initGrid :: "maze \<Rightarrow> error + maze" where
  "initGrid m =
     (case grid_set (initGrid_rows m) (fst (start m)) (snd (start m)) 0 of
        Inl e \<Rightarrow> Inl e
      | Inr g1 \<Rightarrow>
          (case grid_set g1 (fst (endc m)) (snd (endc m)) 0 of
             Inl e \<Rightarrow> Inl e
           | Inr g2 \<Rightarrow> Inr (m\<lparr>grid := g2\<rparr>)))"

definition Maze :: "int \<Rightarrow> int \<Rightarrow> error + maze" where
  "Maze r c = initGrid \<lparr> rows = r, cols = c, grid = Map.empty, start = (1, 1), endc = (r - 2, c - 2) \<rparr>"

lemma fold_upto_upd:
  "fold (\<lambda>j r. r(j \<mapsto> f j)) [a..b] r0 = (\<lambda>k. if a \<le> k \<and> k \<le> b then Some (f k) else r0 k)"
proof (induction a b arbitrary: r0 rule: upto.induct)
  case (1 i j)
  show ?case
  proof (cases "i \<le> j")
    case True
    then have "[i..j] = i # [i+1..j]" by (simp add: upto_rec1)
    then show ?thesis using 1 [OF True] True by (auto simp: fun_eq_iff)
  next
    case False
    then show ?thesis by (auto simp: fun_eq_iff)
  qed
qed

lemma initGrid_rows_dom: "initGrid_rows m i \<noteq> None \<longleftrightarrow> 0 \<le> i \<and> i < rows m"
  by (auto simp: initGrid_rows_def fold_upto_upd)

lemma isl_initGrid:
  "isl (initGrid m) \<longleftrightarrow> \<not> (0 \<le> fst (start m) \<and> fst (start m) < rows m \<and> 0 \<le> fst (endc m) \<and> fst (endc m) < rows m)"
  using initGrid_rows_dom [of m "fst (start m)"] initGrid_rows_dom [of m "fst (endc m)"]
  by (auto simp: initGrid_def grid_set_def split: option.splits)

text \<open>
  C7 (as amended). The constructor makes no check of the dimensions. It fails, with the
  TypeError of the write \<^verbatim>\<open>this.grid[1][1] = 0\<close> at the end of \<^verbatim>\<open>initGrid\<close>, exactly
  when there are fewer than two rows; the number of columns plays no part, so a grid with
  zero columns and at least two rows is accepted.
\<close>

theorem Maze_rejected_iff: "isl (Maze r c) \<longleftrightarrow> r < 2"
  by (auto simp: Maze_def isl_initGrid)

text \<open>
  C7 as stated fails: constructing a maze with five rows and zero columns returns a maze.
\<close>

theorem Maze_zero_cols_accepted: "\<not> isl (Maze 5 0)"
  by (simp add: Maze_def initGrid_def grid_set_def initGrid_rows_def fold_upto_upd)



definition setStart :: "maze \<Rightarrow> int \<Rightarrow> int \<Rightarrow> error + maze" where
  "setStart m row col =
     (case grid_get (grid m) row col of
        Inl e \<Rightarrow> Inl e
      | Inr v \<Rightarrow> if v \<noteq> Some 1 then Inr (m\<lparr>start := (row, col)\<rparr>) else Inr m)"





fun getUnvisitedNeighbors_loop ::
  "maze \<Rightarrow> coord \<Rightarrow> (int \<times> int) list \<Rightarrow> coord list \<Rightarrow> error + coord list" where
  "getUnvisitedNeighbors_loop m cell [] neighbors = Inr neighbors"
| "getUnvisitedNeighbors_loop m cell ((dr, dc) # dirs) neighbors =
     (let newRow = fst cell + dr; newCol = snd cell + dc in
      if newRow > 0 \<and> newRow < rows m - 1 \<and> newCol > 0 \<and> newCol < cols m - 1 then
        (case grid_get (grid m) newRow newCol of
           Inl e \<Rightarrow> Inl e
         | Inr v \<Rightarrow>
             if v = Some 1
             then getUnvisitedNeighbors_loop m cell dirs (neighbors @ [(newRow, newCol)])
             else getUnvisitedNeighbors_loop m cell dirs neighbors)
      else getUnvisitedNeighbors_loop m cell dirs neighbors)"

definition getUnvisitedNeighbors :: "maze \<Rightarrow> coord \<Rightarrow> int \<Rightarrow> error + coord list" where
  "getUnvisitedNeighbors m cell step =
     getUnvisitedNeighbors_loop m cell [(- step, 0), (step, 0), (0, - step), (0, step)] []"

definition uncarved :: "maze \<Rightarrow> coord set" where
  "uncarved m = {p. 0 < fst p \<and> fst p < rows m - 1 \<and> 0 < snd p \<and> snd p < cols m - 1 \<and>
                    (\<exists>r. grid m (fst p) = Some r \<and> r (snd p) = Some 1)}"

lemma finite_uncarved: "finite (uncarved m)"
proof -
  have "uncarved m \<subseteq> {0..rows m} \<times> {0..cols m}"
    by (auto simp: uncarved_def)
  then show ?thesis by (rule finite_subset) simp
qed

lemma getUnvisitedNeighbors_loop_set:
  "getUnvisitedNeighbors_loop m cell dirs acc = Inr ns \<Longrightarrow> set ns \<subseteq> set acc \<union> uncarved m"
proof (induction dirs arbitrary: acc)
  case Nil
  then show ?case by auto
next
  case (Cons d dirs)
  obtain dr dc where d: "d = (dr, dc)" by (cases d)
  from Cons.prems show ?case
    unfolding d
    by (auto simp: Let_def grid_get_def uncarved_def split: if_splits option.splits sum.splits
        dest!: Cons.IH)
qed

lemma getUnvisitedNeighbors_set:
  "getUnvisitedNeighbors m cell step = Inr ns \<Longrightarrow> set ns \<subseteq> uncarved m"
  using getUnvisitedNeighbors_loop_set
    [of m cell "[(- step, 0), (step, 0), (0, - step), (0, step)]" "[]" ns]
  by (simp add: getUnvisitedNeighbors_def)

lemma uncarved_grid_set:
  assumes "grid_set (grid m) i j 0 = Inr g"
  shows "uncarved (m\<lparr>grid := g\<rparr>) \<subseteq> uncarved m - {(i, j)}"
  using assms
  by (auto simp: grid_set_def uncarved_def split: option.splits if_splits)

function generatePerfect_loop :: "maze \<Rightarrow> (nat \<Rightarrow> nat) \<Rightarrow> nat \<Rightarrow> coord list \<Rightarrow> error + maze" where
  "generatePerfect_loop m rnd k stack =
     (if stack = [] then Inr m
      else
        let current = last stack in
        (case getUnvisitedNeighbors m current 2 of
           Inl e \<Rightarrow> Inl e
         | Inr neighbors \<Rightarrow>
             if neighbors = [] then generatePerfect_loop m rnd k (butlast stack)
             else
               let next = neighbors ! (rnd k mod length neighbors);
                   midRow = fst current + (fst next - fst current) div 2;
                   midCol = snd current + (snd next - snd current) div 2
               in
               (case grid_set (grid m) midRow midCol 0 of
                  Inl e \<Rightarrow> Inl e
                | Inr g1 \<Rightarrow>
                    (case grid_set g1 (fst next) (snd next) 0 of
                       Inl e \<Rightarrow> Inl e
                     | Inr g2 \<Rightarrow>
                         generatePerfect_loop (m\<lparr>grid := g2\<rparr>) rnd (k + 1) (stack @ [next])))))"
  by pat_completeness auto
termination
proof (relation "measures [\<lambda>(m, rnd, k, stack). card (uncarved m), \<lambda>(m, rnd, k, stack). length stack]",
    goal_cases)
  case 1
  show ?case by simp
next
  case (2 m rnd k stack current neighbors)
  then show ?case by (cases stack rule: rev_cases) auto
next
  case (3 m rnd k stack current neighbors nxt midRow midCol g1 g2)
  have nx: "nxt \<in> uncarved m"
    using 3 getUnvisitedNeighbors_set [of m current 2 neighbors] by auto
  have "uncarved (m\<lparr>grid := g1\<rparr>) \<subseteq> uncarved m"
    using uncarved_grid_set [of m midRow midCol g1] 3 by auto
  moreover have "uncarved (m\<lparr>grid := g2\<rparr>) \<subseteq> uncarved (m\<lparr>grid := g1\<rparr>) - {nxt}"
    using uncarved_grid_set [of "m\<lparr>grid := g1\<rparr>" "fst nxt" "snd nxt" g2] 3 by auto
  ultimately have "uncarved (m\<lparr>grid := g2\<rparr>) \<subset> uncarved m"
    using nx by auto
  then have "card (uncarved (m\<lparr>grid := g2\<rparr>)) < card (uncarved m)"
    by (rule psubset_card_mono [OF finite_uncarved])
  then show ?case by simp
qed

declare generatePerfect_loop.simps [simp del]

text \<open>
  \<^verbatim>\<open>generatePerfect\<close>. \<^verbatim>\<open>new Array(this.cols)\<close> raises a RangeError for a length that is
  negative or not below \<open>2\<^sup>3\<^sup>2\<close>; it runs once per row. The \<open>k\<close>-th call of
  \<^verbatim>\<open>Math.floor(Math.random() * neighbors.length)\<close> is some index below the length: the
  model takes it from the parameter \<open>rnd\<close> as \<open>rnd k mod length neighbors\<close>.
\<close>

definition generatePerfect :: "maze \<Rightarrow> (nat \<Rightarrow> nat) \<Rightarrow> error + maze" where
  "generatePerfect m rnd =
     (if 0 < rows m \<and> (cols m < 0 \<or> cols m \<ge> 2 ^ 32) then Inl RangeError
      else
        let filled = fold (\<lambda>i g. g(i \<mapsto> fold (\<lambda>j r. r(j \<mapsto> 1)) [0..cols m - 1] Map.empty))
                       [0..rows m - 1] Map.empty
        in
        (case grid_set filled 1 1 0 of
           Inl e \<Rightarrow> Inl e
         | Inr g \<Rightarrow>
             (case generatePerfect_loop (m\<lparr>grid := g\<rparr>) rnd 0 [(1, 1)] of
                Inl e \<Rightarrow> Inl e
              | Inr m1 \<Rightarrow>
                  (case grid_set (grid m1) (fst (endc m1)) (snd (endc m1)) 0 of
                     Inl e \<Rightarrow> Inl e
                   | Inr g2 \<Rightarrow> Inr (m1\<lparr>grid := g2\<rparr>)))))"

definition and_then :: "error + 'a \<Rightarrow> ('a \<Rightarrow> error + 'b) \<Rightarrow> error + 'b" where
  "and_then x f = (case x of Inl e \<Rightarrow> Inl e | Inr a \<Rightarrow> f a)"

definition first_pick :: "nat \<Rightarrow> nat" where
  "first_pick k = 0"

definition moved_start_maze :: "error + maze" where
  "moved_start_maze = and_then (Maze 5 5) (\<lambda>m. setStart m 1 2)"

definition moved_start_perfect :: "error + maze" where
  "moved_start_perfect = and_then moved_start_maze (\<lambda>m. generatePerfect m first_pick)"

definition start_walkable :: "error + maze \<Rightarrow> error + (coord \<times> bool)" where
  "start_walkable x = and_then x (\<lambda>m. Inr (start m, walkable m (start m)))"

text \<open>
  After \<^verbatim>\<open>new Maze(5, 5)\<close> and \<^verbatim>\<open>setStart(1, 2)\<close> the start \<open>(1, 2)\<close> is walkable.
\<close>

lemma moved_start_maze_walkable: "start_walkable moved_start_maze = Inr ((1, 2), True)"
  by code_simp









text \<open>
  \<^verbatim>\<open>generatePerfect\<close> does clear the end, and \<^verbatim>\<open>generateRandom\<close>, which starts from
  \<^verbatim>\<open>initGrid\<close> and skips the two cells, keeps both the start and the end clear.
\<close>

lemma generatePerfect_end_walkable:
  assumes "generatePerfect m rnd = Inr m'"
  shows "walkable m' (endc m')"
proof -
  from assms obtain m1 g2 where g2: "grid_set (grid m1) (fst (endc m1)) (snd (endc m1)) 0 = Inr g2"
    and m': "m' = m1\<lparr>grid := g2\<rparr>"
    unfolding generatePerfect_def Let_def
    by (simp only: split: if_splits sum.splits) auto
  show ?thesis using g2 unfolding m'
    by (auto simp: grid_set_def walkable_def split: option.splits)
qed







lemma initGrid_has_rows: "initGrid m = Inr m' \<Longrightarrow> has_rows m'"
  using initGrid_rows_dom [of m]
  apply (auto simp: has_rows_iff initGrid_def grid_set_def split: option.splits sum.splits if_splits)
  done


subsection \<open>The public operations and the walkable start and end\<close>

















section \<open>The priority queue (class PriorityQueue)\<close>

text \<open>
  The object has the single field \<^verbatim>\<open>values\<close>, an array of \<^verbatim>\<open>{ item, priority }\<close>; the
  model is that array as a list of pairs. \<^verbatim>\<open>enqueue\<close> pushes the entry and sorts the array
  with the comparator \<^verbatim>\<open>a.priority - b.priority\<close>; \<^verbatim>\<open>Array.prototype.sort\<close> is a stable
  sort, here \<open>sort_key\<close>. Priorities are numbers other than NaN, a linear order.
  \<^verbatim>\<open>dequeue\<close> is \<^verbatim>\<open>this.values.shift()?.item\<close>: \<open>None\<close> stands for \<^verbatim>\<open>undefined\<close>.
\<close>

type_synonym ('a, 'p) pqueue = "('a \<times> 'p) list"

definition enqueue :: "'a \<Rightarrow> 'p::linorder \<Rightarrow> ('a, 'p) pqueue \<Rightarrow> ('a, 'p) pqueue" where
  "enqueue item priority vs = sort_key snd (vs @ [(item, priority)])"

fun dequeue :: "('a, 'p) pqueue \<Rightarrow> 'a option \<times> ('a, 'p) pqueue" where
  "dequeue [] = (None, [])"
| "dequeue (v # vs) = (Some (fst v), vs)"

definition isEmpty :: "('a, 'p) pqueue \<Rightarrow> bool" where
  "isEmpty vs \<longleftrightarrow> length vs = 0"

text \<open>
  A sequence of queue operations and the results of its dequeues, in order.
\<close>

datatype ('a, 'p) pq_op = Enqueue 'a 'p | Dequeue

fun run_ops :: "('a, 'p::linorder) pq_op list \<Rightarrow> ('a, 'p) pqueue \<Rightarrow> 'a option list" where
  "run_ops [] q = []"
| "run_ops (Enqueue x p # ops) q = run_ops ops (enqueue x p q)"
| "run_ops (Dequeue # ops) q = (case dequeue q of (r, q') \<Rightarrow> r # run_ops ops q')"

text \<open>
  The behaviour the claim describes, on the entries still pending in the order they were
  enqueued: a dequeue takes, among the entries of least priority, the one enqueued first,
  and on no entries it returns \<^verbatim>\<open>undefined\<close>.
\<close>

definition earliest_minimal :: "('a \<times> 'p::linorder) list \<Rightarrow> 'a \<times> 'p" where
  "earliest_minimal pending = hd (filter (\<lambda>e. snd e = Min (set (map snd pending))) pending)"

fun spec_run :: "('a, 'p::linorder) pq_op list \<Rightarrow> ('a \<times> 'p) list \<Rightarrow> 'a option list" where
  "spec_run [] pending = []"
| "spec_run (Enqueue x p # ops) pending = spec_run ops (pending @ [(x, p)])"
| "spec_run (Dequeue # ops) pending =
     (if pending = [] then None # spec_run ops []
      else Some (fst (earliest_minimal pending)) #
           spec_run ops (remove1 (earliest_minimal pending) pending))"

lemma sort_key_append_sorted:
  "sort_key f (sort_key f xs @ [e]) = sort_key f (xs @ [e])"
proof (rule properties_for_sort_key)
  show "mset (sort_key f (xs @ [e])) = mset (sort_key f xs @ [e])" by simp
  show "sorted (map f (sort_key f (xs @ [e])))" by simp
  fix k
  have "filter (\<lambda>x. f x = f k) (sort_key f (xs @ [e])) = filter (\<lambda>x. f x = f k) (sort_key f xs @ [e])"
    by (simp add: sort_key_stable del: sort_key_simps)
  then show "filter (\<lambda>x. f k = f x) (sort_key f (xs @ [e])) = filter (\<lambda>x. f k = f x) (sort_key f xs @ [e])"
    by (simp add: eq_commute [of "f k"])
qed

lemma sort_key_eq_Nil: "sort_key f xs = [] \<longleftrightarrow> xs = []"
  by (metis length_sort length_0_conv)

lemma hd_sort_key:
  assumes "xs \<noteq> []"
  shows "hd (sort_key snd xs) = earliest_minimal xs"
proof -
  let ?s = "sort_key snd xs"
  let ?k = "Min (set (map snd xs))"
  from assms obtain y ys where s: "?s = y # ys" by (cases ?s) (auto simp: sort_key_eq_Nil)
  have "sorted (map snd ?s)" by simp
  then have le: "\<forall>z \<in> set xs. snd y \<le> snd z"
    using s by (metis list.simps(9) set_ConsD set_sort sorted_simps(2) imageI set_map order_refl)
  have yin: "y \<in> set xs" using s by (metis list.set_intros(1) set_sort)
  have k: "?k = snd y"
    using le yin by (intro Min_eqI) auto
  have "filter (\<lambda>e. snd e = ?k) ?s = filter (\<lambda>e. snd e = ?k) xs"
    by (rule sort_key_stable)
  moreover have "hd (filter (\<lambda>e. snd e = ?k) ?s) = y"
    using s k by simp
  ultimately show ?thesis
    using s by (simp add: earliest_minimal_def)
qed

lemma tl_sort_key:
  assumes "xs \<noteq> []"
  shows "tl (sort_key snd xs) = sort_key snd (remove1 (earliest_minimal xs) xs)"
proof -
  let ?s = "sort_key snd xs"
  let ?e = "earliest_minimal xs"
  from assms obtain y ys where s: "?s = y # ys" by (cases ?s) (auto simp: sort_key_eq_Nil)
  have e: "?e = y" using hd_sort_key [OF assms] s by simp
  have tl: "ys = remove1 ?e ?s" using s e by simp
  have "sort_key snd (remove1 ?e xs) = ys"
  proof (rule properties_for_sort_key)
    show "mset ys = mset (remove1 ?e xs)" unfolding tl by simp
    have "sorted (map snd ?s)" by simp
    then show "sorted (map snd ys)" using s by simp
    fix k
    have "filter (\<lambda>x. snd x = snd k) ?s = filter (\<lambda>x. snd x = snd k) xs"
      by (rule sort_key_stable)
    then have "filter (\<lambda>x. snd k = snd x) ?s = filter (\<lambda>x. snd k = snd x) xs"
      by (simp add: eq_commute [of "snd k"])
    then show "filter (\<lambda>x. snd k = snd x) ys = filter (\<lambda>x. snd k = snd x) (remove1 ?e xs)"
      unfolding tl by (simp add: filter_remove1)
  qed
  then show ?thesis using s by simp
qed

lemma run_ops_refines:
  "run_ops ops (sort_key snd pending) = spec_run ops pending"
proof (induction ops pending rule: spec_run.induct)
  case (1 pending)
  show ?case by simp
next
  case (2 x p ops pending)
  then show ?case by (simp add: enqueue_def sort_key_append_sorted del: sort_key_simps)
next
  case (3 ops pending)
  show ?case
  proof (cases "pending = []")
    case True
    then show ?thesis using 3 by simp
  next
    case False
    then obtain y ys where s: "sort_key snd pending = y # ys"
      by (cases "sort_key snd pending") (auto simp: sort_key_eq_Nil)
    have "y = earliest_minimal pending" "ys = sort_key snd (remove1 (earliest_minimal pending) pending)"
      using hd_sort_key [OF False] tl_sort_key [OF False] s by simp_all
    then show ?thesis using 3 False s by simp
  qed
qed

text \<open>
  C10. For every sequence of enqueue and dequeue operations on an empty PriorityQueue, each
  dequeue returns the item of an entry whose priority is least among the entries in the
  queue, the earliest enqueued one among those of that priority; a dequeue on an empty
  queue returns \<^verbatim>\<open>undefined\<close> and raises nothing.
\<close>

theorem pq_dequeue_min_stable: "run_ops ops [] = spec_run ops []"
  using run_ops_refines [of ops "[]"] by simp

lemma earliest_minimal_props:
  assumes "pending \<noteq> []"
  shows "earliest_minimal pending \<in> set pending"
    and "\<forall>e \<in> set pending. snd (earliest_minimal pending) \<le> snd e"
proof -
  let ?k = "Min (set (map snd pending))"
  have "?k \<in> set (map snd pending)"
    using assms by (intro Min_in) auto
  then have ne: "filter (\<lambda>e. snd e = ?k) pending \<noteq> []"
    by (fastforce simp: filter_empty_conv)
  then have "earliest_minimal pending \<in> set (filter (\<lambda>e. snd e = ?k) pending)"
    unfolding earliest_minimal_def by (rule hd_in_set)
  then have a: "earliest_minimal pending \<in> set pending" and b: "snd (earliest_minimal pending) = ?k"
    by auto
  show "earliest_minimal pending \<in> set pending" by (rule a)
  show "\<forall>e \<in> set pending. snd (earliest_minimal pending) \<le> snd e"
    unfolding b by auto
qed

section \<open>The search algorithms (class PathfindingAlgorithms)\<close>

text \<open>
  Every algorithm awaits the callback \<^verbatim>\<open>onVisit\<close> once per expanded node and ignores what
  it returns; the callbacks of the application only record the cell and redraw. The model
  leaves the callback and the two clock readings (the field \<^verbatim>\<open>time\<close>) out.

  An outcome is \<open>None\<close> when the run does not return, \<open>Some (Inl e)\<close> when it raises
  \<open>e\<close>, and \<open>Some (Inr r)\<close> when it returns the result object \<open>r\<close>. \<open>NaNDistance\<close> is
  not an exception of the source: it marks the states in which the source would compute
  \<^verbatim>\<open>undefined + 1\<close>, which no run from the initial state reaches.
\<close>

definition manhattanDistance :: "coord \<Rightarrow> coord \<Rightarrow> int" where
  "manhattanDistance a b = \<bar>fst a - fst b\<bar> + \<bar>snd a - snd b\<bar>"

definition euclideanDistance :: "coord \<Rightarrow> coord \<Rightarrow> real" where
  "euclideanDistance a b = sqrt (real_of_int ((fst a - fst b) ^ 2) + real_of_int ((snd a - snd b) ^ 2))"

text \<open>
  \<^verbatim>\<open>reconstructPath\<close>: the loop \<^verbatim>\<open>while (current)\<close> follows the parent map from the end
  and stops at the start or at a key without parent; on a cyclic parent map it does not
  stop. \<^verbatim>\<open>unshift\<close> puts the cell in front of the path.
\<close>

partial_function (option) reconstructPath_loop ::
  "(coord \<Rightarrow> coord option) \<Rightarrow> coord \<Rightarrow> coord option \<Rightarrow> coord list \<Rightarrow> coord list option" where
  "reconstructPath_loop parent startp current path =
     (case current of
        None \<Rightarrow> Some path
      | Some c \<Rightarrow>
          if c = startp then Some (c # path)
          else reconstructPath_loop parent startp (parent c) (c # path))"

declare reconstructPath_loop.simps [code]

definition reconstructPath :: "(coord \<Rightarrow> coord option) \<Rightarrow> coord \<Rightarrow> coord \<Rightarrow> coord list option" where
  "reconstructPath parent startp endp = reconstructPath_loop parent startp (Some endp) []"

partial_function (option) pathEnd_loop ::
  "(coord \<Rightarrow> coord option) \<Rightarrow> coord \<Rightarrow> coord option \<Rightarrow> coord list \<Rightarrow> coord list option" where
  "pathEnd_loop parentEnd endp current pathEnd =
     (case current of
        None \<Rightarrow> Some pathEnd
      | Some c \<Rightarrow>
          if c = endp then Some (pathEnd @ [c])
          else pathEnd_loop parentEnd endp (parentEnd c) (pathEnd @ [c]))"

declare pathEnd_loop.simps [code]

definition reconstructBidirectionalPath ::
  "(coord \<Rightarrow> coord option) \<Rightarrow> (coord \<Rightarrow> coord option) \<Rightarrow> coord \<Rightarrow> coord \<Rightarrow> coord \<Rightarrow> coord list option" where
  "reconstructBidirectionalPath parentStart parentEnd startp meeting endp =
     (case reconstructPath_loop parentStart startp (Some meeting) [] of
        None \<Rightarrow> None
      | Some pathStart \<Rightarrow>
          (case pathEnd_loop parentEnd endp (parentEnd meeting) [] of
             None \<Rightarrow> None
           | Some pathEnd \<Rightarrow> Some (pathStart @ pathEnd)))"

record result =
  path :: "coord list option"
  nodesExplored :: nat
  optimal :: bool
  heuristic :: "string option"

type_synonym outcome = "(error + result) option"

definition found :: "coord list option \<Rightarrow> nat \<Rightarrow> bool \<Rightarrow> string option \<Rightarrow> outcome" where
  "found p n opt h =
     map_option (\<lambda>ps. Inr \<lparr> path = Some ps, nodesExplored = n, optimal = opt, heuristic = h \<rparr>) p"

definition no_path :: "nat \<Rightarrow> bool \<Rightarrow> string option \<Rightarrow> outcome" where
  "no_path n opt h = Some (Inr \<lparr> path = None, nodesExplored = n, optimal = opt, heuristic = h \<rparr>)"

text \<open>
  The body of \<^verbatim>\<open>for (const neighbor of neighbors)\<close> of \<^verbatim>\<open>dfs\<close>, \<^verbatim>\<open>bfs\<close> and both
  directions of \<^verbatim>\<open>bidirectional\<close>; \<^verbatim>\<open>push\<close> appends at the end of the stack or queue.
\<close>

definition discover ::
  "coord \<Rightarrow> coord \<Rightarrow> coord set \<times> (coord \<Rightarrow> coord option) \<times> coord list
     \<Rightarrow> coord set \<times> (coord \<Rightarrow> coord option) \<times> coord list" where
  "discover current neighbor s =
     (case s of (visited, parent, frontier) \<Rightarrow>
        if neighbor \<notin> visited
        then (insert neighbor visited, parent(neighbor \<mapsto> current), frontier @ [neighbor])
        else (visited, parent, frontier))"

type_synonym search_state = "coord list \<times> coord set \<times> (coord \<Rightarrow> coord option) \<times> nat"

subsection \<open>dfs\<close>

text \<open>
  One iteration of the \<^verbatim>\<open>while\<close> loop: \<open>Inl\<close> is the \<^verbatim>\<open>return\<close> (or the exception) that
  leaves the loop, \<open>Inr\<close> the variables at the end of the iteration. \<^verbatim>\<open>pop\<close> takes the last
  element of the stack.
\<close>

definition dfs_step :: "maze \<Rightarrow> search_state \<Rightarrow> outcome + search_state" where
  "dfs_step m s =
     (case s of (stack, visited, parent, nodes) \<Rightarrow>
        let current = last stack; stack = butlast stack; nodes = nodes + 1 in
        if current = endc m
        then Inl (found (reconstructPath parent (start m) (endc m)) nodes False None)
        else
          (case getNeighbors m (fst current) (snd current) of
             Inl e \<Rightarrow> Inl (Some (Inl e))
           | Inr neighbors \<Rightarrow>
               (case fold (discover current) neighbors (visited, parent, stack) of
                  (visited, parent, stack) \<Rightarrow> Inr (stack, visited, parent, nodes))))"

definition cells :: "maze \<Rightarrow> coord set" where
  "cells m = {p. in_bounds m p}"

lemma finite_cells: "finite (cells m)"
proof -
  have "cells m \<subseteq> {0..rows m} \<times> {0..cols m}"
    by (auto simp: cells_def in_bounds_def isValid_def)
  then show ?thesis by (rule finite_subset) simp
qed

lemma getNeighbors_loop_cells:
  "getNeighbors_loop m row col dirs acc = Inr ns \<Longrightarrow> set ns \<subseteq> set acc \<union> cells m"
proof (induction dirs arbitrary: acc)
  case Nil
  then show ?case by auto
next
  case (Cons d dirs)
  obtain dr dc where d: "d = (dr, dc)" by (cases d)
  from Cons.prems show ?case
    unfolding d
    by (auto simp: Let_def cells_def isValid_in_bounds split: if_splits sum.splits dest!: Cons.IH)
qed

lemma getNeighbors_cells: "getNeighbors m row col = Inr ns \<Longrightarrow> set ns \<subseteq> cells m"
  using getNeighbors_loop_cells [of m row col directions "[]" ns]
  by (simp add: getNeighbors_def)

lemma fold_discover_visited:
  "fold (discover c) ns (V, P, F) = (V', P', F') \<Longrightarrow> V' = V \<union> set ns"
  by (induction ns arbitrary: V P F) (auto simp: discover_def split: if_splits)

lemma fold_discover_same:
  "set ns \<subseteq> V \<Longrightarrow> fold (discover c) ns (V, P, F) = (V, P, F)"
  by (induction ns arbitrary: V P F) (auto simp: discover_def)

definition search_measure :: "maze \<Rightarrow> coord set \<Rightarrow> nat" where
  "search_measure m V = card (cells m - V)"

lemma search_measure_less:
  assumes "set ns \<subseteq> cells m" "\<not> set ns \<subseteq> V"
  shows "search_measure m (V \<union> set ns) < search_measure m V"
  unfolding search_measure_def
  using assms by (intro psubset_card_mono) (auto simp: finite_cells)

lemma discover_decreases:
  assumes "fold (discover c) ns (V, P, F) = (V', P', F')" "set ns \<subseteq> cells m"
  shows "search_measure m V' < search_measure m V \<or> (V' = V \<and> P' = P \<and> F' = F)"
proof (cases "set ns \<subseteq> V")
  case True
  then show ?thesis using assms fold_discover_same [OF True, of c P F] by simp
next
  case False
  then show ?thesis
    using fold_discover_visited [OF assms(1)] search_measure_less [OF assms(2) False] by simp
qed

lemma dfs_step_decreases:
  assumes "dfs_step m (stack, V, P, n) = Inr (stack', V', P', n')" "stack \<noteq> []"
  shows "search_measure m V' < search_measure m V \<or> (V' = V \<and> length stack' < length stack)"
proof -
  from assms(1) obtain ns where ns: "getNeighbors m (fst (last stack)) (snd (last stack)) = Inr ns"
    and f: "fold (discover (last stack)) ns (V, P, butlast stack) = (V', P', stack')"
    by (auto simp: dfs_step_def Let_def split: if_splits sum.splits prod.splits)
  from discover_decreases [OF f getNeighbors_cells [OF ns]] assms(2)
  show ?thesis by auto
qed

function dfs_loop :: "maze \<Rightarrow> search_state \<Rightarrow> outcome" where
  "dfs_loop m (stack, visited, parent, nodes) =
     (if length stack > 0 then
       (case dfs_step m (stack, visited, parent, nodes) of
          Inl r \<Rightarrow> r
        | Inr s' \<Rightarrow> dfs_loop m s')
     else no_path nodes False None)"
  by pat_completeness auto
termination
proof (relation "measures [\<lambda>(m, stack, V, P, n). search_measure m V, \<lambda>(m, stack, V, P, n). length stack]",
    goal_cases)
  case 1
  show ?case by simp
next
  case (2 m stack V P n s')
  then show ?case
    using dfs_step_decreases [of m stack V P n] by (cases s') auto
qed

declare dfs_loop.simps [simp del]

definition dfs :: "maze \<Rightarrow> outcome" where
  "dfs m = dfs_loop m ([start m], {start m}, Map.empty, 0)"

subsection \<open>bfs\<close>

definition bfs_step :: "maze \<Rightarrow> search_state \<Rightarrow> outcome + search_state" where
  "bfs_step m s =
     (case s of (queue, visited, parent, nodes) \<Rightarrow>
        let current = hd queue; queue = tl queue; nodes = nodes + 1 in
        if current = endc m
        then Inl (found (reconstructPath parent (start m) (endc m)) nodes True None)
        else
          (case getNeighbors m (fst current) (snd current) of
             Inl e \<Rightarrow> Inl (Some (Inl e))
           | Inr neighbors \<Rightarrow>
               (case fold (discover current) neighbors (visited, parent, queue) of
                  (visited, parent, queue) \<Rightarrow> Inr (queue, visited, parent, nodes))))"

lemma bfs_step_decreases:
  assumes "bfs_step m (queue, V, P, n) = Inr (queue', V', P', n')" "queue \<noteq> []"
  shows "search_measure m V' < search_measure m V \<or> (V' = V \<and> length queue' < length queue)"
proof -
  from assms(1) obtain ns where ns: "getNeighbors m (fst (hd queue)) (snd (hd queue)) = Inr ns"
    and f: "fold (discover (hd queue)) ns (V, P, tl queue) = (V', P', queue')"
    by (auto simp: bfs_step_def Let_def split: if_splits sum.splits prod.splits)
  from discover_decreases [OF f getNeighbors_cells [OF ns]] assms(2)
  show ?thesis by auto
qed

function bfs_loop :: "maze \<Rightarrow> search_state \<Rightarrow> outcome" where
  "bfs_loop m (queue, visited, parent, nodes) =
     (if length queue > 0 then
       (case bfs_step m (queue, visited, parent, nodes) of
          Inl r \<Rightarrow> r
        | Inr s' \<Rightarrow> bfs_loop m s')
     else no_path nodes True None)"
  by pat_completeness auto
termination
proof (relation "measures [\<lambda>(m, queue, V, P, n). search_measure m V, \<lambda>(m, queue, V, P, n). length queue]",
    goal_cases)
  case 1
  show ?case by simp
next
  case (2 m queue V P n s')
  then show ?case
    using bfs_step_decreases [of m queue V P n] by (cases s') auto
qed

declare bfs_loop.simps [simp del]

definition bfs :: "maze \<Rightarrow> outcome" where
  "bfs m = bfs_loop m ([start m], {start m}, Map.empty, 0)"

subsection \<open>greedy\<close>

type_synonym greedy_state = "(coord, int) pqueue \<times> coord set \<times> (coord \<Rightarrow> coord option) \<times> nat"

definition greedy_discover ::
  "maze \<Rightarrow> coord \<Rightarrow> coord \<Rightarrow> coord set \<times> (coord \<Rightarrow> coord option) \<times> (coord, int) pqueue
     \<Rightarrow> coord set \<times> (coord \<Rightarrow> coord option) \<times> (coord, int) pqueue" where
  "greedy_discover m current neighbor s =
     (case s of (visited, parent, pq) \<Rightarrow>
        if neighbor \<notin> visited
        then (let h = manhattanDistance neighbor (endc m) in
              (insert neighbor visited, parent(neighbor \<mapsto> current), enqueue neighbor h pq))
        else (visited, parent, pq))"

definition greedy_step :: "maze \<Rightarrow> greedy_state \<Rightarrow> outcome + greedy_state" where
  "greedy_step m s =
     (case s of (pq, visited, parent, nodes) \<Rightarrow>
        (case dequeue pq of
           (None, pq) \<Rightarrow> Inl (Some (Inl TypeError))
         | (Some current, pq) \<Rightarrow>
             let nodes = nodes + 1 in
             if current = endc m
             then Inl (found (reconstructPath parent (start m) (endc m)) nodes False None)
             else
               (case getNeighbors m (fst current) (snd current) of
                  Inl e \<Rightarrow> Inl (Some (Inl e))
                | Inr neighbors \<Rightarrow>
                    (case fold (greedy_discover m current) neighbors (visited, parent, pq) of
                       (visited, parent, pq) \<Rightarrow> Inr (pq, visited, parent, nodes)))))"

lemma fold_greedy_discover_visited:
  "fold (greedy_discover m c) ns (V, P, F) = (V', P', F') \<Longrightarrow> V' = V \<union> set ns"
  by (induction ns arbitrary: V P F) (auto simp: greedy_discover_def Let_def split: if_splits)

lemma fold_greedy_discover_same:
  "set ns \<subseteq> V \<Longrightarrow> fold (greedy_discover m c) ns (V, P, F) = (V, P, F)"
  by (induction ns arbitrary: V P F) (auto simp: greedy_discover_def)

lemma greedy_step_decreases:
  assumes "greedy_step m (pq, V, P, n) = Inr (pq', V', P', n')"
  shows "search_measure m V' < search_measure m V \<or> (V' = V \<and> length pq' < length pq)"
proof -
  from assms obtain c pq1 ns where d: "dequeue pq = (Some c, pq1)"
    and ns: "getNeighbors m (fst c) (snd c) = Inr ns"
    and f: "fold (greedy_discover m c) ns (V, P, pq1) = (V', P', pq')"
    by (auto simp: greedy_step_def Let_def split: if_splits sum.splits prod.splits option.splits)
  from d have len: "length pq1 < length pq" by (cases pq) auto
  show ?thesis
  proof (cases "set ns \<subseteq> V")
    case True
    then show ?thesis using f len fold_greedy_discover_same [OF True, of m c P pq1] by simp
  next
    case False
    then show ?thesis
      using fold_greedy_discover_visited [OF f]
        search_measure_less [OF getNeighbors_cells [OF ns] False] by simp
  qed
qed

function greedy_loop :: "maze \<Rightarrow> greedy_state \<Rightarrow> outcome" where
  "greedy_loop m (pq, visited, parent, nodes) =
     (if \<not> isEmpty pq then
       (case greedy_step m (pq, visited, parent, nodes) of
          Inl r \<Rightarrow> r
        | Inr s' \<Rightarrow> greedy_loop m s')
     else no_path nodes False None)"
  by pat_completeness auto
termination
proof (relation "measures [\<lambda>(m, pq, V, P, n). search_measure m V, \<lambda>(m, pq, V, P, n). length pq]",
    goal_cases)
  case 1
  show ?case by simp
next
  case (2 m pq V P n s')
  then show ?case
    using greedy_step_decreases [of m pq V P n] by (cases s') auto
qed

declare greedy_loop.simps [simp del]

definition greedy :: "maze \<Rightarrow> outcome" where
  "greedy m =
     greedy_loop m (enqueue (start m) (manhattanDistance (start m) (endc m)) [], {start m}, Map.empty, 0)"

subsection \<open>bidirectional\<close>

type_synonym bidi_state =
  "coord list \<times> coord list \<times> coord set \<times> coord set \<times> (coord \<Rightarrow> coord option) \<times> (coord \<Rightarrow> coord option) \<times> nat"

definition expand_start :: "maze \<Rightarrow> bidi_state \<Rightarrow> outcome + bidi_state" where
  "expand_start m s =
     (case s of (queueStart, queueEnd, visitedStart, visitedEnd, parentStart, parentEnd, nodes) \<Rightarrow>
        if length queueStart > 0 then
          let current = hd queueStart; queueStart = tl queueStart; nodes = nodes + 1 in
          if current \<in> visitedEnd
          then Inl (found (reconstructBidirectionalPath parentStart parentEnd (start m) current (endc m))
                      nodes True None)
          else
            (case getNeighbors m (fst current) (snd current) of
               Inl e \<Rightarrow> Inl (Some (Inl e))
             | Inr neighbors \<Rightarrow>
                 (case fold (discover current) neighbors (visitedStart, parentStart, queueStart) of
                    (visitedStart, parentStart, queueStart) \<Rightarrow>
                      Inr (queueStart, queueEnd, visitedStart, visitedEnd, parentStart, parentEnd, nodes)))
        else Inr s)"

definition expand_end :: "maze \<Rightarrow> bidi_state \<Rightarrow> outcome + bidi_state" where
  "expand_end m s =
     (case s of (queueStart, queueEnd, visitedStart, visitedEnd, parentStart, parentEnd, nodes) \<Rightarrow>
        if length queueEnd > 0 then
          let current = hd queueEnd; queueEnd = tl queueEnd; nodes = nodes + 1 in
          if current \<in> visitedStart
          then Inl (found (reconstructBidirectionalPath parentStart parentEnd (start m) current (endc m))
                      nodes True None)
          else
            (case getNeighbors m (fst current) (snd current) of
               Inl e \<Rightarrow> Inl (Some (Inl e))
             | Inr neighbors \<Rightarrow>
                 (case fold (discover current) neighbors (visitedEnd, parentEnd, queueEnd) of
                    (visitedEnd, parentEnd, queueEnd) \<Rightarrow>
                      Inr (queueStart, queueEnd, visitedStart, visitedEnd, parentStart, parentEnd, nodes)))
        else Inr s)"

definition bidirectional_step :: "maze \<Rightarrow> bidi_state \<Rightarrow> outcome + bidi_state" where
  "bidirectional_step m s =
     (case expand_start m s of
        Inl r \<Rightarrow> Inl r
      | Inr s1 \<Rightarrow> expand_end m s1)"

lemma expand_start_decreases:
  assumes "expand_start m (qs, qe, VS, VE, PS, PE, n) = Inr (qs', qe', VS', VE', PS', PE', n')" "qs \<noteq> []"
  shows "qe' = qe \<and> VE' = VE \<and> PE' = PE
         \<and> (search_measure m VS' < search_measure m VS \<or> (VS' = VS \<and> length qs' < length qs))"
proof -
  from assms obtain ns where ns: "getNeighbors m (fst (hd qs)) (snd (hd qs)) = Inr ns"
    and f: "fold (discover (hd qs)) ns (VS, PS, tl qs) = (VS', PS', qs')"
    and r: "qe' = qe" "VE' = VE" "PE' = PE"
    by (auto simp: expand_start_def Let_def split: if_splits sum.splits prod.splits)
  from discover_decreases [OF f getNeighbors_cells [OF ns]] assms(2) r
  show ?thesis by auto
qed

lemma expand_end_decreases:
  assumes "expand_end m (qs, qe, VS, VE, PS, PE, n) = Inr (qs', qe', VS', VE', PS', PE', n')" "qe \<noteq> []"
  shows "qs' = qs \<and> VS' = VS \<and> PS' = PS
         \<and> (search_measure m VE' < search_measure m VE \<or> (VE' = VE \<and> length qe' < length qe))"
proof -
  from assms obtain ns where ns: "getNeighbors m (fst (hd qe)) (snd (hd qe)) = Inr ns"
    and f: "fold (discover (hd qe)) ns (VE, PE, tl qe) = (VE', PE', qe')"
    and r: "qs' = qs" "VS' = VS" "PS' = PS"
    by (auto simp: expand_end_def Let_def split: if_splits sum.splits prod.splits)
  from discover_decreases [OF f getNeighbors_cells [OF ns]] assms(2) r
  show ?thesis by auto
qed

lemma bidirectional_step_decreases:
  assumes "bidirectional_step m (qs, qe, VS, VE, PS, PE, n) = Inr (qs', qe', VS', VE', PS', PE', n')"
    "qs \<noteq> []" "qe \<noteq> []"
  shows "search_measure m VS' + search_measure m VE' < search_measure m VS + search_measure m VE
         \<or> (search_measure m VS' + search_measure m VE' = search_measure m VS + search_measure m VE
            \<and> length qs' + length qe' < length qs + length qe)"
proof -
  from assms(1) obtain s1 where s1: "expand_start m (qs, qe, VS, VE, PS, PE, n) = Inr s1"
    and e: "expand_end m s1 = Inr (qs', qe', VS', VE', PS', PE', n')"
    by (auto simp: bidirectional_step_def split: sum.splits)
  obtain qs1 qe1 VS1 VE1 PS1 PE1 n1 where s1eq: "s1 = (qs1, qe1, VS1, VE1, PS1, PE1, n1)"
    by (cases s1) auto
  from expand_start_decreases [OF s1 [unfolded s1eq] assms(2)]
  have a: "qe1 = qe" "VE1 = VE" "PE1 = PE"
    "search_measure m VS1 < search_measure m VS \<or> (VS1 = VS \<and> length qs1 < length qs)"
    by auto
  from expand_end_decreases [OF e [unfolded s1eq]] assms(3) a(1)
  have b: "qs' = qs1" "VS' = VS1"
    "search_measure m VE' < search_measure m VE1 \<or> (VE' = VE1 \<and> length qe' < length qe1)"
    by auto
  from a b show ?thesis by auto
qed

function bidirectional_loop :: "maze \<Rightarrow> bidi_state \<Rightarrow> outcome" where
  "bidirectional_loop m (queueStart, queueEnd, visitedStart, visitedEnd, parentStart, parentEnd, nodes) =
     (if length queueStart > 0 \<and> length queueEnd > 0 then
       (case bidirectional_step m (queueStart, queueEnd, visitedStart, visitedEnd, parentStart, parentEnd, nodes) of
          Inl r \<Rightarrow> r
        | Inr s' \<Rightarrow> bidirectional_loop m s')
     else no_path nodes True None)"
  by pat_completeness auto
termination
proof (relation "measures [\<lambda>(m, qs, qe, VS, VE, PS, PE, n). search_measure m VS + search_measure m VE,
                           \<lambda>(m, qs, qe, VS, VE, PS, PE, n). length qs + length qe]",
    goal_cases)
  case 1
  show ?case by simp
next
  case (2 m qs qe VS VE PS PE n s')
  then show ?case
    using bidirectional_step_decreases [of m qs qe VS VE PS PE n] by (cases s') auto
qed

declare bidirectional_loop.simps [simp del]

definition bidirectional :: "maze \<Rightarrow> outcome" where
  "bidirectional m =
     bidirectional_loop m ([start m], [endc m], {start m}, {endc m}, Map.empty, Map.empty, 0)"

subsection \<open>dijkstra\<close>

type_synonym dijkstra_state =
  "(coord, nat) pqueue \<times> coord set \<times> (coord \<Rightarrow> nat option) \<times> (coord \<Rightarrow> coord option) \<times> nat"

text \<open>
  The body of the \<^verbatim>\<open>for\<close> loop. \<^verbatim>\<open>newDist\<close> is \<^verbatim>\<open>distances.get(currentKey) + 1\<close>, which
  the loop does not change; the step below reads it once, before the loop.
\<close>

definition dijkstra_relax ::
  "coord \<Rightarrow> nat \<Rightarrow> coord \<Rightarrow> (coord \<Rightarrow> nat option) \<times> (coord \<Rightarrow> coord option) \<times> (coord, nat) pqueue
     \<Rightarrow> (coord \<Rightarrow> nat option) \<times> (coord \<Rightarrow> coord option) \<times> (coord, nat) pqueue" where
  "dijkstra_relax current newDist neighbor s =
     (case s of (distances, parent, pq) \<Rightarrow>
        if distances neighbor = None \<or> newDist < the (distances neighbor)
        then (distances(neighbor \<mapsto> newDist), parent(neighbor \<mapsto> current), enqueue neighbor newDist pq)
        else (distances, parent, pq))"

definition dijkstra_step :: "maze \<Rightarrow> dijkstra_state \<Rightarrow> outcome + dijkstra_state" where
  "dijkstra_step m s =
     (case s of (pq, visited, distances, parent, nodes) \<Rightarrow>
        (case dequeue pq of
           (None, pq) \<Rightarrow> Inl (Some (Inl TypeError))
         | (Some current, pq) \<Rightarrow>
             if current \<in> visited then Inr (pq, visited, distances, parent, nodes)
             else
               let visited = insert current visited; nodes = nodes + 1 in
               if current = endc m
               then Inl (found (reconstructPath parent (start m) (endc m)) nodes True None)
               else
                 (case getNeighbors m (fst current) (snd current) of
                    Inl e \<Rightarrow> Inl (Some (Inl e))
                  | Inr neighbors \<Rightarrow>
                      (case distances current of
                         None \<Rightarrow>
                           if neighbors = [] then Inr (pq, visited, distances, parent, nodes)
                           else Inl (Some (Inl NaNDistance))
                       | Some d \<Rightarrow>
                           (case fold (dijkstra_relax current (d + 1)) neighbors (distances, parent, pq) of
                              (distances, parent, pq) \<Rightarrow> Inr (pq, visited, distances, parent, nodes))))))"

text \<open>
  The loop ends: a relaxation either gives a cell of the grid its first distance or lowers
  a distance, and an iteration without relaxation shortens the queue.
\<close>

definition unset :: "maze \<Rightarrow> (coord \<Rightarrow> nat option) \<Rightarrow> nat" where
  "unset m g = card (cells m - dom g)"

definition dist_sum :: "maze \<Rightarrow> (coord \<Rightarrow> nat option) \<Rightarrow> nat" where
  "dist_sum m g = (\<Sum>c \<in> cells m \<inter> dom g. the (g c))"

definition lowered :: "maze \<Rightarrow> (coord \<Rightarrow> nat option) \<Rightarrow> (coord \<Rightarrow> nat option) \<Rightarrow> bool" where
  "lowered m g' g \<longleftrightarrow> unset m g' < unset m g \<or> (unset m g' = unset m g \<and> dist_sum m g' < dist_sum m g)"

lemma lowered_trans: "lowered m g2 g1 \<Longrightarrow> lowered m g1 g \<Longrightarrow> lowered m g2 g"
  by (auto simp: lowered_def)

lemma lowered_new:
  assumes "c \<in> cells m" "g c = None"
  shows "lowered m (g(c \<mapsto> d)) g"
proof -
  have "cells m - dom (g(c \<mapsto> d)) \<subset> cells m - dom g"
    using assms by auto
  then have "unset m (g(c \<mapsto> d)) < unset m g"
    unfolding unset_def by (intro psubset_card_mono) (auto simp: finite_cells)
  then show ?thesis by (simp add: lowered_def)
qed

lemma lowered_less:
  assumes "c \<in> cells m" "g c = Some d0" "d < d0"
  shows "lowered m (g(c \<mapsto> d)) g"
proof -
  have dom: "dom (g(c \<mapsto> d)) = dom g" using assms by auto
  let ?A = "cells m \<inter> dom g"
  have fin: "finite ?A" by (simp add: finite_cells)
  have cin: "c \<in> ?A" using assms by auto
  have "dist_sum m (g(c \<mapsto> d)) = d + (\<Sum>x \<in> ?A - {c}. the ((g(c \<mapsto> d)) x))"
    unfolding dist_sum_def dom using sum.remove [OF fin cin, of "\<lambda>x. the ((g(c \<mapsto> d)) x)"] by simp
  also have "(\<Sum>x \<in> ?A - {c}. the ((g(c \<mapsto> d)) x)) = (\<Sum>x \<in> ?A - {c}. the (g x))"
    by (rule sum.cong) auto
  finally have "dist_sum m (g(c \<mapsto> d)) = d + (\<Sum>x \<in> ?A - {c}. the (g x))" .
  moreover have "dist_sum m g = d0 + (\<Sum>x \<in> ?A - {c}. the (g x))"
    unfolding dist_sum_def using sum.remove [OF fin cin, of "\<lambda>x. the (g x)"] assms by simp
  ultimately have lt: "dist_sum m (g(c \<mapsto> d)) < dist_sum m g" using assms by simp
  moreover have "unset m (g(c \<mapsto> d)) = unset m g"
    unfolding unset_def dom ..
  ultimately show ?thesis by (simp add: lowered_def)
qed

lemma dijkstra_relax_lowered:
  assumes "dijkstra_relax c d nb (g, P, pq) = (g', P', pq')" "nb \<in> cells m"
  shows "lowered m g' g \<or> (g' = g \<and> P' = P \<and> pq' = pq)"
  using assms lowered_new [of nb m g d] lowered_less [of nb m g _ d]
  by (cases "g nb") (auto simp: dijkstra_relax_def split: if_splits)

lemma fold_dijkstra_relax_lowered:
  assumes "fold (dijkstra_relax c d) ns (g, P, pq) = (g', P', pq')" "set ns \<subseteq> cells m"
  shows "lowered m g' g \<or> (g' = g \<and> P' = P \<and> pq' = pq)"
  using assms
proof (induction ns arbitrary: g P pq)
  case Nil
  then show ?case by simp
next
  case (Cons nb ns)
  obtain g1 P1 pq1 where s1: "dijkstra_relax c d nb (g, P, pq) = (g1, P1, pq1)"
    by (cases "dijkstra_relax c d nb (g, P, pq)") auto
  from Cons.prems have f: "fold (dijkstra_relax c d) ns (g1, P1, pq1) = (g', P', pq')"
    by (simp add: s1)
  from Cons.IH [OF f] Cons.prems(2)
  have a: "lowered m g' g1 \<or> (g' = g1 \<and> P' = P1 \<and> pq' = pq1)" by simp
  from dijkstra_relax_lowered [OF s1] Cons.prems(2)
  have b: "lowered m g1 g \<or> (g1 = g \<and> P1 = P \<and> pq1 = pq)" by simp
  from a b show ?case by (auto intro: lowered_trans)
qed

lemma dequeue_length: "dequeue pq = (Some c, pq1) \<Longrightarrow> length pq1 < length pq"
  by (cases pq) auto

lemma dijkstra_step_decreases:
  assumes "dijkstra_step m (pq, V, g, P, n) = Inr (pq', V', g', P', n')"
  shows "lowered m g' g \<or> (g' = g \<and> length pq' < length pq)"
proof -
  from assms obtain c pq1 where d: "dequeue pq = (Some c, pq1)"
    by (auto simp: dijkstra_step_def split: prod.splits option.splits)
  note len = dequeue_length [OF d]
  show ?thesis
  proof (cases "c \<in> V")
    case True
    then show ?thesis using assms d len by (simp add: dijkstra_step_def)
  next
    case False
    from assms d False obtain ns where ns: "getNeighbors m (fst c) (snd c) = Inr ns"
      by (auto simp: dijkstra_step_def Let_def split: if_splits sum.splits)
    show ?thesis
    proof (cases "g c")
      case None
      then show ?thesis
        using assms d False ns len by (auto simp: dijkstra_step_def Let_def split: if_splits)
    next
      case (Some d0)
      then have f: "fold (dijkstra_relax c (d0 + 1)) ns (g, P, pq1) = (g', P', pq')"
        using assms d False ns by (auto simp: dijkstra_step_def Let_def split: if_splits prod.splits)
      from fold_dijkstra_relax_lowered [OF f getNeighbors_cells [OF ns]] len
      show ?thesis by auto
    qed
  qed
qed

function dijkstra_loop :: "maze \<Rightarrow> dijkstra_state \<Rightarrow> outcome" where
  "dijkstra_loop m (pq, visited, distances, parent, nodes) =
     (if \<not> isEmpty pq then
       (case dijkstra_step m (pq, visited, distances, parent, nodes) of
          Inl r \<Rightarrow> r
        | Inr s' \<Rightarrow> dijkstra_loop m s')
     else no_path nodes True None)"
  by pat_completeness auto
termination
proof (relation "measures [\<lambda>(m, pq, V, g, P, n). unset m g, \<lambda>(m, pq, V, g, P, n). dist_sum m g,
                           \<lambda>(m, pq, V, g, P, n). length pq]",
    goal_cases)
  case 1
  show ?case by simp
next
  case (2 m pq V g P n s')
  then show ?case
    using dijkstra_step_decreases [of m pq V g P n] by (cases s') (auto simp: lowered_def)
qed

declare dijkstra_loop.simps [simp del]

definition dijkstra :: "maze \<Rightarrow> outcome" where
  "dijkstra m =
     dijkstra_loop m (enqueue (start m) 0 [], {}, [start m \<mapsto> 0], Map.empty, 0)"

subsection \<open>astar\<close>

type_synonym astar_state =
  "(coord, real) pqueue \<times> coord set \<times> (coord \<Rightarrow> nat option) \<times> (coord \<Rightarrow> real option)
     \<times> (coord \<Rightarrow> coord option) \<times> nat"

text \<open>
  \<^verbatim>\<open>heuristic === 'euclidean' ? this.euclideanDistance : this.manhattanDistance\<close>.
  \<^verbatim>\<open>Math.sqrt\<close> and the sums of the f-scores are taken in the reals; the rounding of
  doubles is not modelled.
\<close>

definition heuristicFunc :: "string \<Rightarrow> coord \<Rightarrow> coord \<Rightarrow> real" where
  "heuristicFunc selector =
     (if selector = ''euclidean'' then euclideanDistance
      else (\<lambda>a b. real_of_int (manhattanDistance a b)))"

definition astar_relax ::
  "(coord \<Rightarrow> coord \<Rightarrow> real) \<Rightarrow> coord \<Rightarrow> coord \<Rightarrow> nat \<Rightarrow> coord
     \<Rightarrow> (coord \<Rightarrow> nat option) \<times> (coord \<Rightarrow> real option) \<times> (coord \<Rightarrow> coord option) \<times> (coord, real) pqueue
     \<Rightarrow> (coord \<Rightarrow> nat option) \<times> (coord \<Rightarrow> real option) \<times> (coord \<Rightarrow> coord option) \<times> (coord, real) pqueue" where
  "astar_relax hf goal current tentativeGScore neighbor s =
     (case s of (gScore, fScore, parent, pq) \<Rightarrow>
        if gScore neighbor = None \<or> tentativeGScore < the (gScore neighbor)
        then
          (let parent = parent(neighbor \<mapsto> current);
               gScore = gScore(neighbor \<mapsto> tentativeGScore);
               h = hf neighbor goal;
               fScore = fScore(neighbor \<mapsto> real tentativeGScore + h)
           in (gScore, fScore, parent, enqueue neighbor (the (fScore neighbor)) pq))
        else (gScore, fScore, parent, pq))"

definition astar_step ::
  "maze \<Rightarrow> (coord \<Rightarrow> coord \<Rightarrow> real) \<Rightarrow> string \<Rightarrow> astar_state \<Rightarrow> outcome + astar_state" where
  "astar_step m hf selector s =
     (case s of (pq, visited, gScore, fScore, parent, nodes) \<Rightarrow>
        (case dequeue pq of
           (None, pq) \<Rightarrow> Inl (Some (Inl TypeError))
         | (Some current, pq) \<Rightarrow>
             if current \<in> visited then Inr (pq, visited, gScore, fScore, parent, nodes)
             else
               let visited = insert current visited; nodes = nodes + 1 in
               if current = endc m
               then Inl (found (reconstructPath parent (start m) (endc m)) nodes True (Some selector))
               else
                 (case getNeighbors m (fst current) (snd current) of
                    Inl e \<Rightarrow> Inl (Some (Inl e))
                  | Inr neighbors \<Rightarrow>
                      (case gScore current of
                         None \<Rightarrow>
                           if neighbors = [] then Inr (pq, visited, gScore, fScore, parent, nodes)
                           else Inl (Some (Inl NaNDistance))
                       | Some g \<Rightarrow>
                           (case fold (astar_relax hf (endc m) current (g + 1)) neighbors
                                   (gScore, fScore, parent, pq) of
                              (gScore, fScore, parent, pq) \<Rightarrow>
                                Inr (pq, visited, gScore, fScore, parent, nodes))))))"

lemma astar_relax_lowered:
  assumes "astar_relax hf goal c d nb (g, f, P, pq) = (g', f', P', pq')" "nb \<in> cells m"
  shows "lowered m g' g \<or> (g' = g \<and> f' = f \<and> P' = P \<and> pq' = pq)"
  using assms lowered_new [of nb m g d] lowered_less [of nb m g _ d]
  by (cases "g nb") (auto simp: astar_relax_def Let_def split: if_splits)

lemma fold_astar_relax_lowered:
  assumes "fold (astar_relax hf goal c d) ns (g, f, P, pq) = (g', f', P', pq')" "set ns \<subseteq> cells m"
  shows "lowered m g' g \<or> (g' = g \<and> f' = f \<and> P' = P \<and> pq' = pq)"
  using assms
proof (induction ns arbitrary: g f P pq)
  case Nil
  then show ?case by simp
next
  case (Cons nb ns)
  obtain g1 f1 P1 pq1 where s1: "astar_relax hf goal c d nb (g, f, P, pq) = (g1, f1, P1, pq1)"
    by (cases "astar_relax hf goal c d nb (g, f, P, pq)") auto
  from Cons.prems have f: "fold (astar_relax hf goal c d) ns (g1, f1, P1, pq1) = (g', f', P', pq')"
    by (simp add: s1)
  from Cons.IH [OF f] Cons.prems(2)
  have a: "lowered m g' g1 \<or> (g' = g1 \<and> f' = f1 \<and> P' = P1 \<and> pq' = pq1)" by simp
  from astar_relax_lowered [OF s1] Cons.prems(2)
  have b: "lowered m g1 g \<or> (g1 = g \<and> f1 = f \<and> P1 = P \<and> pq1 = pq)" by simp
  from a b show ?case by (auto intro: lowered_trans)
qed

lemma astar_step_decreases:
  assumes "astar_step m hf sel (pq, V, g, f, P, n) = Inr (pq', V', g', f', P', n')"
  shows "lowered m g' g \<or> (g' = g \<and> length pq' < length pq)"
proof -
  from assms obtain c pq1 where d: "dequeue pq = (Some c, pq1)"
    by (auto simp: astar_step_def split: prod.splits option.splits)
  note len = dequeue_length [OF d]
  show ?thesis
  proof (cases "c \<in> V")
    case True
    then show ?thesis using assms d len by (simp add: astar_step_def)
  next
    case False
    from assms d False obtain ns where ns: "getNeighbors m (fst c) (snd c) = Inr ns"
      by (auto simp: astar_step_def Let_def split: if_splits sum.splits)
    show ?thesis
    proof (cases "g c")
      case None
      then show ?thesis
        using assms d False ns len by (auto simp: astar_step_def Let_def split: if_splits)
    next
      case (Some d0)
      then have f: "fold (astar_relax hf (endc m) c (d0 + 1)) ns (g, f, P, pq1) = (g', f', P', pq')"
        using assms d False ns by (auto simp: astar_step_def Let_def split: if_splits prod.splits)
      from fold_astar_relax_lowered [OF f getNeighbors_cells [OF ns]] len
      show ?thesis by auto
    qed
  qed
qed

function astar_loop :: "maze \<Rightarrow> (coord \<Rightarrow> coord \<Rightarrow> real) \<Rightarrow> string \<Rightarrow> astar_state \<Rightarrow> outcome" where
  "astar_loop m hf selector (pq, visited, gScore, fScore, parent, nodes) =
     (if \<not> isEmpty pq then
       (case astar_step m hf selector (pq, visited, gScore, fScore, parent, nodes) of
          Inl r \<Rightarrow> r
        | Inr s' \<Rightarrow> astar_loop m hf selector s')
     else no_path nodes True (Some selector))"
  by pat_completeness auto
termination
proof (relation "measures [\<lambda>(m, hf, sel, pq, V, g, f, P, n). unset m g,
                           \<lambda>(m, hf, sel, pq, V, g, f, P, n). dist_sum m g,
                           \<lambda>(m, hf, sel, pq, V, g, f, P, n). length pq]",
    goal_cases)
  case 1
  show ?case by simp
next
  case (2 m hf sel pq V g f P n s')
  then show ?case
    using astar_step_decreases [of m hf sel pq V g f P n] by (cases s') (auto simp: lowered_def)
qed

declare astar_loop.simps [simp del]

definition astar :: "maze \<Rightarrow> string \<Rightarrow> outcome" where
  "astar m selector =
     (let hf = heuristicFunc selector;
          gScore = [start m \<mapsto> 0];
          fScore = [start m \<mapsto> hf (start m) (endc m)];
          pq = enqueue (start m) (the (fScore (start m))) []
      in astar_loop m hf selector (pq, {}, gScore, fScore, Map.empty, 0))"

section \<open>The seven algorithms of the application\<close>

text \<open>The table \<^verbatim>\<open>algoMap\<close> of \<^verbatim>\<open>runAlgorithm\<close> and \<^verbatim>\<open>runAllAlgorithms\<close>.\<close>

datatype algorithm = DFS | BFS | Dijkstra | AStarManhattan | AStarEuclidean | Greedy | Bidirectional

fun algoMap :: "algorithm \<Rightarrow> maze \<Rightarrow> outcome" where
  "algoMap DFS m = dfs m"
| "algoMap BFS m = bfs m"
| "algoMap Dijkstra m = dijkstra m"
| "algoMap AStarManhattan m = astar m ''manhattan''"
| "algoMap AStarEuclidean m = astar m ''euclidean''"
| "algoMap Greedy m = greedy m"
| "algoMap Bidirectional m = bidirectional m"

text \<open>
  Modelled from the spec: the Chebyshev heuristic, which the source does not define.
\<close>

definition spec_chebyshev :: "coord \<Rightarrow> coord \<Rightarrow> int" where
  "spec_chebyshev a b = max \<bar>fst a - fst b\<bar> \<bar>snd a - snd b\<bar>"

lemma reconstructPath_self: "reconstructPath P s s = Some [s]"
  by (simp add: reconstructPath_def reconstructPath_loop.simps)

lemma enqueue_single: "enqueue x p [] = [(x, p)]"
  by (simp add: enqueue_def)

lemma dfs_trivial:
  "start m = endc m \<Longrightarrow>
   dfs m = Some (Inr \<lparr> path = Some [start m], nodesExplored = 1, optimal = False, heuristic = None \<rparr>)"
  by (simp add: dfs_def dfs_loop.simps dfs_step_def reconstructPath_self found_def)

lemma bfs_trivial:
  "start m = endc m \<Longrightarrow>
   bfs m = Some (Inr \<lparr> path = Some [start m], nodesExplored = 1, optimal = True, heuristic = None \<rparr>)"
  by (simp add: bfs_def bfs_loop.simps bfs_step_def reconstructPath_self found_def)

lemma dijkstra_trivial:
  "start m = endc m \<Longrightarrow>
   dijkstra m = Some (Inr \<lparr> path = Some [start m], nodesExplored = 1, optimal = True, heuristic = None \<rparr>)"
  by (simp add: dijkstra_def dijkstra_loop.simps dijkstra_step_def reconstructPath_self found_def enqueue_single isEmpty_def)

lemma astar_trivial:
  "start m = endc m \<Longrightarrow>
   astar m sel = Some (Inr \<lparr> path = Some [start m], nodesExplored = 1, optimal = True, heuristic = Some sel \<rparr>)"
  by (simp add: astar_def astar_loop.simps astar_step_def reconstructPath_self found_def enqueue_single isEmpty_def)

lemma greedy_trivial:
  "start m = endc m \<Longrightarrow>
   greedy m = Some (Inr \<lparr> path = Some [start m], nodesExplored = 1, optimal = False, heuristic = None \<rparr>)"
  by (simp add: greedy_def greedy_loop.simps greedy_step_def reconstructPath_self found_def enqueue_single isEmpty_def)

lemma bidirectional_trivial:
  "start m = endc m \<Longrightarrow>
   bidirectional m = Some (Inr \<lparr> path = Some [start m], nodesExplored = 1, optimal = True, heuristic = None \<rparr>)"
  by (simp add: bidirectional_def bidirectional_loop.simps bidirectional_step_def expand_start_def found_def
      reconstructBidirectionalPath_def reconstructPath_loop.simps pathEnd_loop.simps)

text \<open>
  C4. When the start coordinate equals the end coordinate, each of the seven algorithms
  returns a result whose path is the one-element sequence of the start and whose
  \<^verbatim>\<open>nodesExplored\<close> is 1.
\<close>

theorem trivial_case:
  assumes "start m = endc m"
  shows "\<exists>r. algoMap a m = Some (Inr r) \<and> path r = Some [start m] \<and> nodesExplored r = 1"
  using assms
  by (cases a)
     (simp_all add: dfs_trivial bfs_trivial dijkstra_trivial astar_trivial greedy_trivial
        bidirectional_trivial)

theorem trivial_case_witness:
  "start (ring3\<lparr>endc := (0, 0)\<rparr>) = endc (ring3\<lparr>endc := (0, 0)\<rparr>)
   \<and> (\<exists>r. algoMap Bidirectional (ring3\<lparr>endc := (0, 0)\<rparr>) = Some (Inr r)
          \<and> path r = Some [(0, 0)] \<and> nodesExplored r = 1)"
  using trivial_case [of "ring3\<lparr>endc := (0, 0)\<rparr>" Bidirectional]
  by (simp add: ring3_def)

text \<open>
  C5 as stated fails: with the selector \<^verbatim>\<open>'chebyshev'\<close> the heuristic A* uses for \<open>(0, 0)\<close>
  and \<open>(1, 1)\<close> is 2, not the Chebyshev distance 1.
\<close>

theorem chebyshev_not_used:
  "heuristicFunc ''chebyshev'' (0, 0) (1, 1) \<noteq> real_of_int (spec_chebyshev (0, 0) (1, 1))"
  by (simp add: heuristicFunc_def manhattanDistance_def spec_chebyshev_def)

definition relabel :: "string \<Rightarrow> outcome \<Rightarrow> outcome" where
  "relabel sel = map_option (map_sum id (\<lambda>r. r\<lparr>heuristic := Some sel\<rparr>))"

lemma astar_step_relabel:
  "astar_step m hf sel s = map_sum (relabel sel) id (astar_step m hf sel' s)"
  by (auto simp: astar_step_def relabel_def found_def Let_def option.map_comp comp_def
      split: prod.splits option.splits sum.splits)

lemma astar_loop_relabel:
  "astar_loop m hf sel s = relabel sel (astar_loop m hf sel' s)"
proof (induction m hf sel' s rule: astar_loop.induct)
  case (1 m hf sel' pq V g f P n)
  show ?case
  proof (cases "isEmpty pq")
    case True
    then show ?thesis
      by (simp add: relabel_def no_path_def astar_loop.simps)
  next
    case False
    show ?thesis
    proof (cases "astar_step m hf sel' (pq, V, g, f, P, n)")
      case (Inl r)
      then show ?thesis
        using False astar_step_relabel [of m hf sel "(pq, V, g, f, P, n)" sel']
        by (simp add: astar_loop.simps)
    next
      case (Inr s')
      have "astar_loop m hf sel s' = relabel sel (astar_loop m hf sel' s')"
        using 1 [OF False Inr] .
      then show ?thesis
        using False Inr astar_step_relabel [of m hf sel "(pq, V, g, f, P, n)" sel']
        by (simp add: astar_loop.simps)
    qed
  qed
qed

text \<open>
  C5 (as amended). The source has two heuristic functions, Manhattan and Euclidean. A*
  called with the selector \<^verbatim>\<open>'chebyshev'\<close> uses the Manhattan distance
  \<open>|a.row - b.row| + |a.col - b.col|\<close>, as for every selector other than \<^verbatim>\<open>'euclidean'\<close>,
  and returns what the Manhattan run returns but for the selector echoed in the field
  \<^verbatim>\<open>heuristic\<close>.
\<close>

theorem chebyshev_is_manhattan:
  "heuristicFunc ''chebyshev'' a b = real_of_int (\<bar>fst a - fst b\<bar> + \<bar>snd a - snd b\<bar>)
   \<and> astar m ''chebyshev'' = relabel ''chebyshev'' (astar m ''manhattan'')"
  using astar_loop_relabel [of m "heuristicFunc ''manhattan''" "''chebyshev''" _ "''manhattan''"]
  by (simp add: heuristicFunc_def manhattanDistance_def astar_def Let_def)


section \<open>The maze as a graph\<close>

text \<open>
  On a grid that has its rows \<^verbatim>\<open>getNeighbors\<close> returns \<open>nbrs\<close>. A walk moves from each cell
  to one of its \<open>nbrs\<close>; \<open>sdist\<close> is the least number of moves of a walk between two
  cells.

  The words of the spec: two coordinates are adjacent when they differ by exactly one unit
  in exactly one axis; a route is a non-empty sequence of walkable cells within the bounds,
  each adjacent to the next, from the start to the end.
\<close>

definition nbrs :: "maze \<Rightarrow> coord \<Rightarrow> coord list" where
  "nbrs m p = filter (open_cell m) (four_around (fst p) (snd p))"

definition adjacent :: "coord \<Rightarrow> coord \<Rightarrow> bool" where
  "adjacent a b \<longleftrightarrow>
     (\<bar>fst a - fst b\<bar> = 1 \<and> snd a = snd b) \<or> (fst a = fst b \<and> \<bar>snd a - snd b\<bar> = 1)"

definition valid_path :: "maze \<Rightarrow> coord list \<Rightarrow> bool" where
  "valid_path m p \<longleftrightarrow> p \<noteq> [] \<and> list_all (open_cell m) p \<and> successively adjacent p"

definition route :: "maze \<Rightarrow> coord list \<Rightarrow> bool" where
  "route m p \<longleftrightarrow> valid_path m p \<and> hd p = start m \<and> last p = endc m"

definition walk :: "maze \<Rightarrow> coord list \<Rightarrow> bool" where
  "walk m p \<longleftrightarrow> p \<noteq> [] \<and> successively (\<lambda>a b. b \<in> set (nbrs m a)) p"

definition walk_to :: "maze \<Rightarrow> coord \<Rightarrow> coord \<Rightarrow> coord list \<Rightarrow> bool" where
  "walk_to m s v p \<longleftrightarrow> walk m p \<and> hd p = s \<and> last p = v"

definition reach :: "maze \<Rightarrow> coord \<Rightarrow> coord \<Rightarrow> bool" where
  "reach m s v \<longleftrightarrow> (\<exists>p. walk_to m s v p)"

definition sdist :: "maze \<Rightarrow> coord \<Rightarrow> coord \<Rightarrow> nat" where
  "sdist m s v = (LEAST k. \<exists>p. walk_to m s v p \<and> length p = Suc k)"

lemma getNeighbors_nbrs: "has_rows m \<Longrightarrow> getNeighbors m (fst p) (snd p) = Inr (nbrs m p)"
  using getNeighbors_open_cells [of m "fst p" "snd p"]
  by (simp add: nbrs_def)

lemma four_around_iff: "b \<in> set (four_around (fst a) (snd a)) \<longleftrightarrow> adjacent a b"
proof -
  obtain r c r' c' where ab: "a = (r, c)" "b = (r', c')" by (cases a; cases b) auto
  have "(r' = r - 1 \<and> c' = c) \<or> (r' = r + 1 \<and> c' = c) \<or> (r' = r \<and> c' = c - 1) \<or> (r' = r \<and> c' = c + 1)
        \<longleftrightarrow> (\<bar>r - r'\<bar> = 1 \<and> c = c') \<or> (r = r' \<and> \<bar>c - c'\<bar> = 1)"
    by arith
  then show ?thesis by (simp add: ab four_around_def adjacent_def)
qed

lemma nbrs_iff: "b \<in> set (nbrs m a) \<longleftrightarrow> adjacent a b \<and> open_cell m b"
  by (auto simp: nbrs_def four_around_iff)

lemma distinct_nbrs: "distinct (nbrs m a)"
  by (simp add: nbrs_def four_around_def)

lemma adjacent_sym: "adjacent a b \<Longrightarrow> adjacent b a"
  by (auto simp: adjacent_def)

lemma nbrs_sym: "b \<in> set (nbrs m a) \<Longrightarrow> open_cell m a \<Longrightarrow> a \<in> set (nbrs m b)"
  by (auto simp: nbrs_iff adjacent_sym)

lemma nbrs_cells: "set (nbrs m a) \<subseteq> cells m"
  by (auto simp: nbrs_iff open_cell_def cells_def)

lemma walk_single [simp]: "walk m [a]"
  by (simp add: walk_def)

lemma walk_snoc: "walk m p \<Longrightarrow> b \<in> set (nbrs m (last p)) \<Longrightarrow> walk m (p @ [b])"
  by (auto simp: walk_def successively_append_iff)

lemma walk_snocD: "walk m (p @ [b]) \<Longrightarrow> p \<noteq> [] \<Longrightarrow> walk m p \<and> b \<in> set (nbrs m (last p))"
  by (auto simp: walk_def successively_append_iff)

lemma walk_append:
  "walk m p \<Longrightarrow> walk m q \<Longrightarrow> hd q \<in> set (nbrs m (last p)) \<Longrightarrow> walk m (p @ q)"
  by (auto simp: walk_def successively_append_iff)

lemma walk_tl_open: "walk m p \<Longrightarrow> \<forall>c \<in> set (tl p). open_cell m c"
proof (induction p rule: rev_induct)
  case Nil
  then show ?case by simp
next
  case (snoc b p)
  show ?case
  proof (cases "p = []")
    case True
    then show ?thesis by simp
  next
    case False
    with snoc walk_snocD [of m p b] show ?thesis by (auto simp: nbrs_iff)
  qed
qed

lemma walk_valid_path:
  assumes "open_cell m (hd p)"
  shows "walk m p \<longleftrightarrow> valid_path m p"
proof
  assume w: "walk m p"
  then have ne: "p \<noteq> []" by (simp add: walk_def)
  have "\<forall>c \<in> set p. open_cell m c"
    using walk_tl_open [OF w] assms ne by (cases p) auto
  moreover have "successively adjacent p"
    using w unfolding walk_def by (auto elim!: successively_mono simp: nbrs_iff)
  ultimately show "valid_path m p" using ne by (simp add: valid_path_def list_all_iff)
next
  assume v: "valid_path m p"
  then have "successively (\<lambda>a b. b \<in> set (nbrs m a)) p"
    unfolding valid_path_def list_all_iff
  proof (induction p rule: induct_list012)
    case (3 x y zs)
    then show ?case by (auto simp: nbrs_iff)
  qed auto
  with v show "walk m p" by (simp add: walk_def valid_path_def)
qed

lemma walk_rev:
  assumes "walk m p" "open_cell m (hd p)"
  shows "walk m (rev p)"
proof -
  from assms have v: "valid_path m p" by (simp add: walk_valid_path)
  then have "successively adjacent (rev p)"
    unfolding valid_path_def successively_rev
    by (auto elim!: successively_mono intro: adjacent_sym)
  with v have "valid_path m (rev p)" by (simp add: valid_path_def list_all_iff)
  moreover have "open_cell m (hd (rev p))"
    using v by (auto simp: valid_path_def list_all_iff hd_rev)
  ultimately show ?thesis by (simp add: walk_valid_path)
qed

lemma reach_refl: "reach m s s"
  unfolding reach_def walk_to_def by (rule exI [of _ "[s]"]) simp

lemma reach_step: "reach m s v \<Longrightarrow> w \<in> set (nbrs m v) \<Longrightarrow> reach m s w"
  unfolding reach_def walk_to_def
  by (metis walk_snoc last_snoc hd_append2 walk_def)

lemma sdist_le: "walk_to m s v p \<Longrightarrow> sdist m s v \<le> length p - 1"
  unfolding sdist_def
  by (rule Least_le) (auto simp: walk_to_def walk_def intro!: exI [of _ p])

lemma sdist_walk:
  assumes "reach m s v"
  shows "\<exists>p. walk_to m s v p \<and> length p = Suc (sdist m s v)"
proof -
  from assms obtain p where p: "walk_to m s v p" by (auto simp: reach_def)
  then have "p \<noteq> []" by (simp add: walk_to_def walk_def)
  then have "\<exists>p'. walk_to m s v p' \<and> length p' = Suc (length p - 1)"
    using p by (intro exI [of _ p]) simp
  then show ?thesis unfolding sdist_def by (rule LeastI)
qed

lemma sdist_self [simp]: "sdist m s s = 0"
  using sdist_le [of m s s "[s]"] by (simp add: walk_to_def)

lemma sdist_zero: "reach m s v \<Longrightarrow> sdist m s v = 0 \<Longrightarrow> v = s"
  using sdist_walk [of m s v] by (auto simp: walk_to_def length_Suc_conv)

lemma sdist_step:
  assumes "reach m s v" "w \<in> set (nbrs m v)"
  shows "sdist m s w \<le> Suc (sdist m s v)"
proof -
  from sdist_walk [OF assms(1)] obtain p where p: "walk_to m s v p" "length p = Suc (sdist m s v)"
    by blast
  then have "p \<noteq> []" by (simp add: walk_to_def walk_def)
  then have "walk_to m s w (p @ [w])"
    using assms(2) p(1) walk_snoc [of m p w] by (simp add: walk_to_def)
  from sdist_le [OF this] p(2) show ?thesis by simp
qed

lemma sdist_pred:
  assumes "reach m s w" "sdist m s w = Suc k"
  shows "\<exists>u. reach m s u \<and> sdist m s u = k \<and> w \<in> set (nbrs m u)"
proof -
  from sdist_walk [OF assms(1)] obtain p where p: "walk_to m s w p" "length p = Suc (Suc k)"
    using assms(2) by auto
  then have "p \<noteq> []" "last p = w" by (auto simp: walk_to_def)
  then have "p = butlast p @ [w]" using append_butlast_last_id [of p] by simp
  moreover have "length (butlast p) = Suc k" using p(2) by simp
  ultimately obtain q where q: "p = q @ [w]" "q \<noteq> []" "length q = Suc k"
    by (metis length_0_conv nat.distinct(1))
  let ?u = "last q"
  have wq: "walk m q" "w \<in> set (nbrs m ?u)"
    using walk_snocD [of m q w] p(1) q by (auto simp: walk_to_def)
  have wu: "walk_to m s ?u q" using p(1) q wq by (auto simp: walk_to_def)
  then have r: "reach m s ?u" by (auto simp: reach_def)
  have "sdist m s ?u \<le> k" using sdist_le [OF wu] q by simp
  moreover have "Suc k \<le> Suc (sdist m s ?u)"
    using sdist_step [OF r wq(2)] assms(2) by simp
  ultimately have "sdist m s ?u = k" by simp
  with r wq(2) show ?thesis by blast
qed

section \<open>Searches that mark a cell when they discover it\<close>

text \<open>
  \<^verbatim>\<open>dfs\<close>, \<^verbatim>\<open>bfs\<close>, \<^verbatim>\<open>greedy\<close> and each direction of \<^verbatim>\<open>bidirectional\<close> give a cell its
  parent once, when it enters the visited set. The parent map is then a tree rooted at the
  cell the search began with: every visited cell has a chain of parents from the root, which
  is a walk and which \<^verbatim>\<open>reconstructPath\<close> returns. \<open>Q\<close> is a property of these chains that
  each discovery keeps (for the breadth-first searches, that the chain is a shortest walk).
\<close>

definition chain :: "(coord \<Rightarrow> coord option) \<Rightarrow> coord \<Rightarrow> coord list \<Rightarrow> bool" where
  "chain P r p \<longleftrightarrow> p \<noteq> [] \<and> hd p = r \<and> successively (\<lambda>a b. P b = Some a \<and> b \<noteq> r) p"

definition tree_inv ::
  "maze \<Rightarrow> coord \<Rightarrow> (coord \<Rightarrow> coord list \<Rightarrow> bool) \<Rightarrow> coord set \<Rightarrow> (coord \<Rightarrow> coord option) \<Rightarrow> bool" where
  "tree_inv m r Q V P \<longleftrightarrow>
     r \<in> V \<and> P r = None \<and> (\<forall>v \<in> V. open_cell m v) \<and>
     (\<forall>v \<in> V. \<exists>p. chain P r p \<and> last p = v \<and> set p \<subseteq> V \<and> walk m p \<and> Q v p)"

definition discovered :: "coord \<Rightarrow> coord list \<Rightarrow> coord set \<Rightarrow> (coord \<Rightarrow> coord option) \<Rightarrow> coord \<Rightarrow> coord option" where
  "discovered c ns V P = (\<lambda>w. if w \<in> set ns \<and> w \<notin> V then Some c else P w)"

definition search_inv ::
  "maze \<Rightarrow> coord \<Rightarrow> coord \<Rightarrow> (coord \<Rightarrow> coord list \<Rightarrow> bool) \<Rightarrow> coord set \<Rightarrow> (coord \<Rightarrow> coord option)
     \<Rightarrow> coord set \<Rightarrow> bool" where
  "search_inv m r t Q V P F \<longleftrightarrow>
     tree_inv m r Q V P \<and> F \<subseteq> V \<and> (\<forall>v \<in> V - F. set (nbrs m v) \<subseteq> V) \<and> (t \<in> V \<longrightarrow> t \<in> F)"

lemma chain_single [simp]: "chain P r [r]"
  by (simp add: chain_def)

lemma chain_cong: "\<forall>b \<in> set p. P' b = P b \<Longrightarrow> chain P' r p \<longleftrightarrow> chain P r p"
  unfolding chain_def successively_conv_nth
  by (metis Suc_lessD nth_mem)

lemma chain_snoc: "chain P r p \<Longrightarrow> P w = Some (last p) \<Longrightarrow> w \<noteq> r \<Longrightarrow> chain P r (p @ [w])"
  by (auto simp: chain_def successively_append_iff)

lemma chain_snocD:
  "chain P r (p @ [w]) \<Longrightarrow> p \<noteq> [] \<Longrightarrow> chain P r p \<and> P w = Some (last p) \<and> w \<noteq> r"
  by (auto simp: chain_def successively_append_iff)

lemma reconstruct_chain:
  "chain P r p \<Longrightarrow> reconstructPath_loop P r (Some (last p)) acc = Some (p @ acc)"
proof (induction p arbitrary: acc rule: rev_induct)
  case Nil
  then show ?case by (simp add: chain_def)
next
  case (snoc w p)
  show ?case
  proof (cases "p = []")
    case True
    with snoc.prems have "w = r" by (simp add: chain_def)
    then show ?thesis using True by (simp add: reconstructPath_loop.simps)
  next
    case False
    from chain_snocD [OF snoc.prems False]
    have c: "chain P r p" "P w = Some (last p)" "w \<noteq> r" by auto
    have "reconstructPath_loop P r (Some w) acc = reconstructPath_loop P r (Some (last p)) (w # acc)"
      using c by (subst reconstructPath_loop.simps) simp
    also have "\<dots> = Some (p @ w # acc)" by (rule snoc.IH [OF c(1)])
    finally show ?thesis by simp
  qed
qed

lemma pathEnd_chain:
  "chain P r p \<Longrightarrow> pathEnd_loop P r (Some (last p)) acc = Some (acc @ rev p)"
proof (induction p arbitrary: acc rule: rev_induct)
  case Nil
  then show ?case by (simp add: chain_def)
next
  case (snoc w p)
  show ?case
  proof (cases "p = []")
    case True
    with snoc.prems have "w = r" by (simp add: chain_def)
    then show ?thesis using True by (simp add: pathEnd_loop.simps)
  next
    case False
    from chain_snocD [OF snoc.prems False]
    have c: "chain P r p" "P w = Some (last p)" "w \<noteq> r" by auto
    have "pathEnd_loop P r (Some w) acc = pathEnd_loop P r (Some (last p)) (acc @ [w])"
      using c by (subst pathEnd_loop.simps) simp
    also have "\<dots> = Some ((acc @ [w]) @ rev p)" by (rule snoc.IH [OF c(1)])
    finally show ?thesis by simp
  qed
qed

lemma fold_discover:
  "distinct ns \<Longrightarrow>
   fold (discover c) ns (V, P, F) = (V \<union> set ns, discovered c ns V P, F @ filter (\<lambda>w. w \<notin> V) ns)"
proof (induction ns arbitrary: V P F)
  case Nil
  show ?case by (simp add: discovered_def)
next
  case (Cons a ns)
  then have d: "distinct ns" "a \<notin> set ns" by auto
  have unfold: "fold (discover c) (a # ns) (V, P, F) = fold (discover c) ns (discover c a (V, P, F))"
    by simp
  show ?case
  proof (cases "a \<in> V")
    case True
    then have "discover c a (V, P, F) = (V, P, F)" by (simp add: discover_def)
    moreover have "discovered c (a # ns) V P = discovered c ns V P"
      using True by (auto simp: discovered_def fun_eq_iff)
    moreover have "V \<union> set (a # ns) = V \<union> set ns" using True by auto
    moreover have "filter (\<lambda>w. w \<notin> V) (a # ns) = filter (\<lambda>w. w \<notin> V) ns" using True by simp
    ultimately show ?thesis
      unfolding unfold using Cons.IH [OF d(1), of V P F] by (simp only:)
  next
    case False
    then have "discover c a (V, P, F) = (insert a V, P(a \<mapsto> c), F @ [a])"
      by (simp add: discover_def)
    moreover have "discovered c (a # ns) V P = discovered c ns (insert a V) (P(a \<mapsto> c))"
      using d(2) False by (auto simp: discovered_def fun_eq_iff)
    moreover have "filter (\<lambda>w. w \<notin> insert a V) ns = filter (\<lambda>w. w \<notin> V) ns"
      using d(2) by (intro filter_cong) auto
    then have "F @ filter (\<lambda>w. w \<notin> V) (a # ns) = (F @ [a]) @ filter (\<lambda>w. w \<notin> insert a V) ns"
      using False by simp
    moreover have "V \<union> set (a # ns) = insert a V \<union> set ns" by auto
    ultimately show ?thesis
      unfolding unfold using Cons.IH [OF d(1), of "insert a V" "P(a \<mapsto> c)" "F @ [a]"]
      by (simp only:)
  qed
qed

lemma tree_init: "open_cell m r \<Longrightarrow> Q r [r] \<Longrightarrow> tree_inv m r Q {r} Map.empty"
  by (auto simp: tree_inv_def intro!: exI [of _ "[r]"])

lemma tree_step:
  assumes t: "tree_inv m r Q V P" and c: "c \<in> V" and ns: "set ns \<subseteq> set (nbrs m c)"
    and q: "\<And>w p. w \<in> set ns \<Longrightarrow> w \<notin> V \<Longrightarrow> chain P r p \<Longrightarrow> last p = c \<Longrightarrow> Q c p \<Longrightarrow> Q w (p @ [w])"
  shows "tree_inv m r Q (V \<union> set ns) (discovered c ns V P)"
proof -
  let ?P = "discovered c ns V P"
  have same: "\<And>b. b \<in> V \<Longrightarrow> ?P b = P b" by (simp add: discovered_def)
  have old: "\<exists>p. chain ?P r p \<and> last p = v \<and> set p \<subseteq> V \<union> set ns \<and> walk m p \<and> Q v p" if "v \<in> V" for v
  proof -
    from t that obtain p where p: "chain P r p" "last p = v" "set p \<subseteq> V" "walk m p" "Q v p"
      unfolding tree_inv_def by blast
    have "chain ?P r p \<longleftrightarrow> chain P r p"
      by (rule chain_cong) (use p(3) same in auto)
    with p show ?thesis by blast
  qed
  have new: "\<exists>p. chain ?P r p \<and> last p = w \<and> set p \<subseteq> V \<union> set ns \<and> walk m p \<and> Q w p"
    if w: "w \<in> set ns" "w \<notin> V" for w
  proof -
    from t c obtain p where p: "chain P r p" "last p = c" "set p \<subseteq> V" "walk m p" "Q c p"
      unfolding tree_inv_def by blast
    have "chain ?P r p \<longleftrightarrow> chain P r p"
      by (rule chain_cong) (use p(3) same in auto)
    with p(1) have cp: "chain ?P r p" by simp
    have "r \<in> V" using t by (simp add: tree_inv_def)
    with w have wr: "w \<noteq> r" by auto
    have "chain ?P r (p @ [w])"
      using cp p(2) w wr by (intro chain_snoc) (auto simp: discovered_def)
    moreover have "walk m (p @ [w])"
      using p(4) p(2) w ns by (intro walk_snoc) auto
    moreover have "Q w (p @ [w])" using q [OF w p(1) p(2) p(5)] .
    ultimately show ?thesis using p(3) w by (intro exI [of _ "p @ [w]"]) auto
  qed
  have "r \<in> V" "P r = None" using t by (auto simp: tree_inv_def)
  moreover have "\<forall>v \<in> V \<union> set ns. open_cell m v"
    using t ns by (auto simp: tree_inv_def nbrs_iff)
  moreover have "discovered c ns V P r = None"
    using \<open>r \<in> V\<close> \<open>P r = None\<close> same by simp
  moreover have "\<forall>v \<in> V \<union> set ns. \<exists>p. chain ?P r p \<and> last p = v \<and> set p \<subseteq> V \<union> set ns \<and> walk m p \<and> Q v p"
    using old new by blast
  ultimately show ?thesis
    unfolding tree_inv_def by blast
qed

lemma search_init:
  "open_cell m r \<Longrightarrow> Q r [r] \<Longrightarrow> search_inv m r t Q {r} Map.empty {r}"
  by (simp add: search_inv_def tree_init)

lemma search_step:
  assumes s: "search_inv m r t Q V P F" and c: "c \<in> F" "c \<noteq> t"
    and f: "F' \<subseteq> F" "F \<subseteq> insert c F'"
    and q: "\<And>w p. w \<in> set (nbrs m c) \<Longrightarrow> w \<notin> V \<Longrightarrow> chain P r p \<Longrightarrow> last p = c \<Longrightarrow> Q c p
              \<Longrightarrow> Q w (p @ [w])"
  shows "search_inv m r t Q (V \<union> set (nbrs m c)) (discovered c (nbrs m c) V P)
           (F' \<union> (set (nbrs m c) - V))"
proof -
  from s have t: "tree_inv m r Q V P" and fv: "F \<subseteq> V"
    and cl: "\<forall>v \<in> V - F. set (nbrs m v) \<subseteq> V" and e: "t \<in> V \<longrightarrow> t \<in> F"
    by (auto simp: search_inv_def)
  have cv: "c \<in> V" using c fv by auto
  have "tree_inv m r Q (V \<union> set (nbrs m c)) (discovered c (nbrs m c) V P)"
    by (rule tree_step [OF t cv subset_refl q])
  moreover have "F' \<union> (set (nbrs m c) - V) \<subseteq> V \<union> set (nbrs m c)"
    using f fv by auto
  moreover have "\<forall>v \<in> (V \<union> set (nbrs m c)) - (F' \<union> (set (nbrs m c) - V)). set (nbrs m v) \<subseteq> V \<union> set (nbrs m c)"
  proof
    fix v assume v: "v \<in> (V \<union> set (nbrs m c)) - (F' \<union> (set (nbrs m c) - V))"
    then have "v \<in> V" "v \<notin> F'" by auto
    then have "v = c \<or> v \<in> V - F" using f by auto
    then show "set (nbrs m v) \<subseteq> V \<union> set (nbrs m c)" using cl by auto
  qed
  moreover have "t \<in> V \<union> set (nbrs m c) \<longrightarrow> t \<in> F' \<union> (set (nbrs m c) - V)"
    using e c f by auto
  ultimately show ?thesis by (simp add: search_inv_def)
qed

lemma closed_reach:
  assumes "s \<in> V" "\<forall>v \<in> V. set (nbrs m v) \<subseteq> V" "walk m p" "hd p = s"
  shows "last p \<in> V"
  using assms(3,4)
proof (induction p rule: rev_induct)
  case Nil
  then show ?case by (simp add: walk_def)
next
  case (snoc w p)
  show ?case
  proof (cases "p = []")
    case True
    with snoc.prems assms(1) show ?thesis by simp
  next
    case False
    from walk_snocD [OF snoc.prems(1) False] have "walk m p" "w \<in> set (nbrs m (last p))" by auto
    moreover have "hd p = s" using snoc.prems(2) False by simp
    ultimately show ?thesis using snoc.IH assms(2) by auto
  qed
qed

lemma search_done:
  assumes "search_inv m r t Q V P {}"
  shows "\<not> reach m r t"
proof
  assume "reach m r t"
  then obtain p where p: "walk m p" "hd p = r" "last p = t"
    by (auto simp: reach_def walk_to_def)
  from assms have "r \<in> V" "\<forall>v \<in> V. set (nbrs m v) \<subseteq> V" "t \<notin> V"
    by (auto simp: search_inv_def tree_inv_def)
  with closed_reach [OF this(1,2) p(1,2)] p(3) show False by simp
qed

lemma tree_chain:
  assumes "tree_inv m r Q V P" "v \<in> V"
  shows "\<exists>p. chain P r p \<and> last p = v \<and> walk_to m r v p \<and> Q v p"
proof -
  from assms obtain p where p: "chain P r p" "last p = v" "walk m p" "Q v p"
    unfolding tree_inv_def by blast
  moreover have "hd p = r" using p(1) by (simp add: chain_def)
  ultimately show ?thesis by (auto simp: walk_to_def)
qed

lemma search_found:
  assumes "search_inv m r t Q V P F" "t \<in> F"
  shows "\<exists>p. reconstructPath P r t = Some p \<and> walk_to m r t p \<and> Q t p"
proof -
  from assms have "tree_inv m r Q V P" "t \<in> V" by (auto simp: search_inv_def)
  from tree_chain [OF this] obtain p where p: "chain P r p" "last p = t" "walk_to m r t p" "Q t p"
    by blast
  from reconstruct_chain [OF p(1), of "[]"] p(2)
  have "reconstructPath P r t = Some p" by (simp add: reconstructPath_def)
  with p show ?thesis by blast
qed

definition sound :: "maze \<Rightarrow> (coord list \<Rightarrow> bool) \<Rightarrow> outcome \<Rightarrow> bool" where
  "sound m Q out \<longleftrightarrow>
     (\<exists>r. out = Some (Inr r) \<and>
          (case path r of
             None \<Rightarrow> \<not> reach m (start m) (endc m)
           | Some p \<Rightarrow> walk_to m (start m) (endc m) p \<and> Q p))"

lemma sound_found:
  "walk_to m (start m) (endc m) p \<Longrightarrow> Q p \<Longrightarrow> sound m Q (found (Some p) n opt h)"
  by (simp add: sound_def found_def)

lemma sound_no_path: "\<not> reach m (start m) (endc m) \<Longrightarrow> sound m Q (no_path n opt h)"
  by (simp add: sound_def no_path_def)

lemma dfs_loop_sound:
  "has_rows m \<Longrightarrow> search_inv m (start m) (endc m) (\<lambda>_ _. True) V P (set stack)
   \<Longrightarrow> sound m (\<lambda>_. True) (dfs_loop m (stack, V, P, n))"
proof (induction m "(stack, V, P, n)" arbitrary: stack V P n rule: dfs_loop.induct)
  case (1 m stack V P n)
  note hr = "1.prems"(1) and inv = "1.prems"(2)
  show ?case
  proof (cases "stack = []")
    case True
    with inv search_done [of m _ _ _ V P] show ?thesis
      by (simp add: dfs_loop.simps sound_no_path)
  next
    case False
    let ?c = "last stack"
    have cin: "?c \<in> set stack" using False by simp
    show ?thesis
    proof (cases "?c = endc m")
      case True
      from search_found [OF inv] cin True
      obtain p where "reconstructPath P (start m) (endc m) = Some p" "walk_to m (start m) (endc m) p"
        by auto
      then show ?thesis
        using False True by (simp add: dfs_loop.simps dfs_step_def sound_found)
    next
      case ne: False
      let ?ns = "nbrs m ?c"
      let ?s' = "(butlast stack @ filter (\<lambda>w. w \<notin> V) ?ns, V \<union> set ?ns, discovered ?c ?ns V P, n + 1)"
      have step: "dfs_step m (stack, V, P, n) = Inr ?s'"
        using ne getNeighbors_nbrs [OF hr, of ?c]
          fold_discover [OF distinct_nbrs, of ?c m ?c V P "butlast stack"]
        by (simp add: dfs_step_def Let_def)
      have "stack = butlast stack @ [?c]" using False by simp
      then have "set stack \<subseteq> insert ?c (set (butlast stack))"
        by (metis Un_insert_right list.set(1) list.set(2) set_append subset_refl sup_bot.right_neutral)
      moreover have "set (butlast stack) \<subseteq> set stack"
        by (auto dest: in_set_butlastD)
      ultimately have "search_inv m (start m) (endc m) (\<lambda>_ _. True) (V \<union> set ?ns) (discovered ?c ?ns V P)
              (set (butlast stack) \<union> (set ?ns - V))"
        using search_step [OF inv cin ne, of "set (butlast stack)"] by simp
      moreover have "set (butlast stack @ filter (\<lambda>w. w \<notin> V) ?ns) = set (butlast stack) \<union> (set ?ns - V)"
        by auto
      ultimately have "search_inv m (start m) (endc m) (\<lambda>_ _. True) (V \<union> set ?ns) (discovered ?c ?ns V P)
              (set (butlast stack @ filter (\<lambda>w. w \<notin> V) ?ns))"
        by simp
      from "1.hyps" [OF _ step hr this] False
      have "sound m (\<lambda>_. True) (dfs_loop m ?s')" by simp
      then show ?thesis using False step by (simp add: dfs_loop.simps)
    qed
  qed
qed

subsection \<open>greedy and bfs\<close>

text \<open>
  For \<^verbatim>\<open>bfs\<close> the queue is sorted by distance from the root and spans at most two
  levels, every cell no farther than the head of the queue is visited, and no expanded cell
  is farther than the head.
\<close>

lemma set_enqueue: "set (enqueue x p pq) = insert (x, p) (set pq)"
  by (simp add: enqueue_def)

lemma fold_greedy_discover:
  "fold (greedy_discover m c) ns (V, P, pq) = (V', P', pq') \<Longrightarrow>
   V' = V \<union> set ns \<and> P' = discovered c ns V P \<and> fst ` set pq' = fst ` set pq \<union> (set ns - V)"
proof (induction ns arbitrary: V P pq)
  case Nil
  then show ?case by (simp add: discovered_def)
next
  case (Cons a ns)
  show ?case
  proof (cases "a \<in> V")
    case True
    then have "greedy_discover m c a (V, P, pq) = (V, P, pq)" by (simp add: greedy_discover_def)
    with Cons.prems have "fold (greedy_discover m c) ns (V, P, pq) = (V', P', pq')" by simp
    from Cons.IH [OF this] have "V' = V \<union> set ns" "P' = discovered c ns V P"
      "fst ` set pq' = fst ` set pq \<union> (set ns - V)" by blast+
    moreover have "discovered c (a # ns) V P = discovered c ns V P"
      using True by (auto simp: discovered_def fun_eq_iff)
    ultimately show ?thesis using True by auto
  next
    case False
    let ?pq = "enqueue a (manhattanDistance a (endc m)) pq"
    from False have "greedy_discover m c a (V, P, pq) = (insert a V, P(a \<mapsto> c), ?pq)"
      by (simp add: greedy_discover_def)
    with Cons.prems have "fold (greedy_discover m c) ns (insert a V, P(a \<mapsto> c), ?pq) = (V', P', pq')"
      by simp
    from Cons.IH [OF this] have "V' = insert a V \<union> set ns" "P' = discovered c ns (insert a V) (P(a \<mapsto> c))"
      "fst ` set pq' = fst ` set ?pq \<union> (set ns - insert a V)" by blast+
    moreover have "discovered c (a # ns) V P = discovered c ns (insert a V) (P(a \<mapsto> c))"
      using False by (auto simp: discovered_def fun_eq_iff)
    moreover have "fst ` set ?pq \<union> (set ns - insert a V) = fst ` set pq \<union> (set (a # ns) - V)"
      using False by (auto simp: set_enqueue)
    moreover have "insert a V \<union> set ns = V \<union> set (a # ns)" by auto
    ultimately show ?thesis by (simp only:)
  qed
qed

lemma greedy_loop_sound:
  "has_rows m \<Longrightarrow> search_inv m (start m) (endc m) (\<lambda>_ _. True) V P (fst ` set pq)
   \<Longrightarrow> sound m (\<lambda>_. True) (greedy_loop m (pq, V, P, n))"
proof (induction m "(pq, V, P, n)" arbitrary: pq V P n rule: greedy_loop.induct)
  case (1 m pq V P n)
  note hr = "1.prems"(1) and inv = "1.prems"(2)
  show ?case
  proof (cases pq)
    case Nil
    with inv search_done [of m _ _ _ V P] show ?thesis
      by (simp add: greedy_loop.simps sound_no_path isEmpty_def)
  next
    case (Cons e pq1)
    obtain c pr where e: "e = (c, pr)" by (cases e)
    have ne: "\<not> isEmpty pq" using Cons by (simp add: isEmpty_def)
    have cin: "c \<in> fst ` set pq" using Cons e by auto
    show ?thesis
    proof (cases "c = endc m")
      case True
      from search_found [OF inv] cin True
      obtain p where "reconstructPath P (start m) (endc m) = Some p" "walk_to m (start m) (endc m) p"
        by auto
      then show ?thesis
        using ne True Cons e by (simp add: greedy_loop.simps greedy_step_def sound_found)
    next
      case False
      let ?ns = "nbrs m c"
      obtain V' P' pq' where f: "fold (greedy_discover m c) ?ns (V, P, pq1) = (V', P', pq')"
        by (cases "fold (greedy_discover m c) ?ns (V, P, pq1)") auto
      from fold_greedy_discover [OF f]
      have r: "V' = V \<union> set ?ns" "P' = discovered c ?ns V P"
        "fst ` set pq' = fst ` set pq1 \<union> (set ?ns - V)" by auto
      have step: "greedy_step m (pq, V, P, n) = Inr (pq', V', P', n + 1)"
        using False getNeighbors_nbrs [OF hr, of c] f Cons e
        by (simp add: greedy_step_def Let_def)
      have "fst ` set pq1 \<subseteq> fst ` set pq" "fst ` set pq \<subseteq> insert c (fst ` set pq1)"
        using Cons e by auto
      from search_step [OF inv cin False this]
      have "search_inv m (start m) (endc m) (\<lambda>_ _. True) V' P' (fst ` set pq')"
        using r by simp
      from "1.hyps" [OF ne step hr this]
      show ?thesis using ne step by (simp add: greedy_loop.simps)
    qed
  qed
qed

lemma sorted_map_le_last: "sorted (map f xs) \<Longrightarrow> x \<in> set xs \<Longrightarrow> f x \<le> f (last xs)"
  by (induction xs) auto

lemma sorted_map_hd_le: "sorted (map f xs) \<Longrightarrow> x \<in> set xs \<Longrightarrow> f (hd xs) \<le> f x"
  by (cases xs) auto

lemma sorted_map_const: "\<forall>x \<in> set xs. f x = k \<Longrightarrow> sorted (map f xs)"
  by (induction xs) auto

definition bfs_inv ::
  "maze \<Rightarrow> coord \<Rightarrow> coord \<Rightarrow> coord list \<Rightarrow> coord set \<Rightarrow> (coord \<Rightarrow> coord option) \<Rightarrow> bool" where
  "bfs_inv m r t q V P \<longleftrightarrow>
     search_inv m r t (\<lambda>v p. length p = Suc (sdist m r v)) V P (set q) \<and>
     sorted (map (sdist m r) q) \<and>
     (q \<noteq> [] \<longrightarrow> sdist m r (last q) \<le> Suc (sdist m r (hd q))) \<and>
     (q \<noteq> [] \<longrightarrow> (\<forall>w. reach m r w \<and> sdist m r w \<le> sdist m r (hd q) \<longrightarrow> w \<in> V)) \<and>
     (q \<noteq> [] \<longrightarrow> (\<forall>v \<in> V - set q. sdist m r v \<le> sdist m r (hd q)))"

lemma tree_reach: "tree_inv m r Q V P \<Longrightarrow> v \<in> V \<Longrightarrow> reach m r v"
  unfolding tree_inv_def reach_def walk_to_def chain_def by blast

lemma bfs_inv_step:
  assumes inv: "bfs_inv m r t (c # q) V P" and ne: "c \<noteq> t"
  shows "bfs_inv m r t (q @ filter (\<lambda>w. w \<notin> V) (nbrs m c)) (V \<union> set (nbrs m c)) (discovered c (nbrs m c) V P)"
proof -
  let ?d = "sdist m r"
  let ?Q = "\<lambda>v p. length p = Suc (?d v)"
  let ?ns = "nbrs m c"
  let ?news = "filter (\<lambda>w. w \<notin> V) ?ns"
  let ?q' = "q @ ?news"
  let ?V' = "V \<union> set ?ns"
  from inv have s: "search_inv m r t ?Q V P (set (c # q))" and srt: "sorted (map ?d (c # q))"
    and span: "?d (last (c # q)) \<le> Suc (?d c)"
    and lev: "\<forall>w. reach m r w \<and> ?d w \<le> ?d c \<longrightarrow> w \<in> V"
    and exp: "\<forall>v \<in> V - set (c # q). ?d v \<le> ?d c"
    by (auto simp: bfs_inv_def)
  from s have t: "tree_inv m r ?Q V P" and cv: "c \<in> V" by (auto simp: search_inv_def)
  have rc: "reach m r c" by (rule tree_reach [OF t cv])
  have dnew: "?d w = Suc (?d c)" if w: "w \<in> set ?ns" "w \<notin> V" for w
  proof -
    have "reach m r w" using reach_step [OF rc w(1)] .
    with lev w(2) have "\<not> ?d w \<le> ?d c" by blast
    moreover have "?d w \<le> Suc (?d c)" by (rule sdist_step [OF rc w(1)])
    ultimately show ?thesis by simp
  qed
  have qle: "\<forall>x \<in> set q. ?d c \<le> ?d x \<and> ?d x \<le> Suc (?d c)"
  proof
    fix x assume x: "x \<in> set q"
    then have "q \<noteq> []" by auto
    have "?d c \<le> ?d x" using srt x by auto
    moreover have "?d x \<le> ?d (last q)"
      using srt x by (intro sorted_map_le_last) auto
    moreover have "?d (last q) \<le> Suc (?d c)" using span \<open>q \<noteq> []\<close> by simp
    ultimately show "?d c \<le> ?d x \<and> ?d x \<le> Suc (?d c)" by simp
  qed
  have s': "search_inv m r t ?Q ?V' (discovered c ?ns V P) (set ?q')"
  proof -
    have "search_inv m r t ?Q ?V' (discovered c ?ns V P) (set q \<union> (set ?ns - V))"
    proof (rule search_step [OF s _ ne])
      show "c \<in> set (c # q)" by simp
      show "set q \<subseteq> set (c # q)" by auto
      show "set (c # q) \<subseteq> insert c (set q)" by auto
      fix w p assume "w \<in> set ?ns" "w \<notin> V" "last p = c" "length p = Suc (?d c)"
      then show "length (p @ [w]) = Suc (?d w)" using dnew by simp
    qed
    moreover have "set ?q' = set q \<union> (set ?ns - V)" by auto
    ultimately show ?thesis by simp
  qed
  have "sorted (map ?d q)" using srt by simp
  moreover have "sorted (map ?d ?news)"
    by (rule sorted_map_const [of _ _ "Suc (?d c)"]) (use dnew in auto)
  moreover have "\<forall>x \<in> set q. \<forall>y \<in> set ?news. ?d x \<le> ?d y"
    using qle dnew by auto
  ultimately have srt': "sorted (map ?d ?q')"
    by (simp add: sorted_append)
  have all_ge: "\<forall>x \<in> set ?q'. ?d c \<le> ?d x"
    using qle dnew by auto
  have hd_ge: "?d c \<le> ?d (hd ?q')" if "?q' \<noteq> []"
    using all_ge hd_in_set [OF that] by blast
  have all_le: "\<forall>x \<in> set ?q'. ?d x \<le> Suc (?d c)"
    using qle dnew by auto
  have span': "?q' \<noteq> [] \<longrightarrow> ?d (last ?q') \<le> Suc (?d (hd ?q'))"
  proof
    assume n: "?q' \<noteq> []"
    then have "last ?q' \<in> set ?q'" by (rule last_in_set)
    with all_le have "?d (last ?q') \<le> Suc (?d c)" by blast
    with hd_ge [OF n] show "?d (last ?q') \<le> Suc (?d (hd ?q'))" by simp
  qed
  have lev': "?q' \<noteq> [] \<longrightarrow> (\<forall>w. reach m r w \<and> ?d w \<le> ?d (hd ?q') \<longrightarrow> w \<in> ?V')"
  proof (intro impI allI)
    fix w assume n: "?q' \<noteq> []" and w: "reach m r w \<and> ?d w \<le> ?d (hd ?q')"
    have "hd ?q' \<in> set ?q'" using n by (rule hd_in_set)
    with all_le have hle: "?d (hd ?q') \<le> Suc (?d c)" by blast
    show "w \<in> ?V'"
    proof (cases "?d w \<le> ?d c")
      case True
      with lev w show ?thesis by blast
    next
      case False
      with w hle have dw: "?d w = Suc (?d c)" and hq: "?d (hd ?q') = Suc (?d c)" by auto
      from sdist_pred [OF _ dw] w obtain u where u: "reach m r u" "?d u = ?d c" "w \<in> set (nbrs m u)"
        by blast
      with lev have uV: "u \<in> V" by (metis order_refl)
      have "u \<notin> set ?q'"
      proof
        assume "u \<in> set ?q'"
        have "sorted (map ?d ?q')" by (rule srt')
        then have "?d (hd ?q') \<le> ?d u"
          using \<open>u \<in> set ?q'\<close> by (rule sorted_map_hd_le)
        with hq u(2) show False by simp
      qed
      with uV have "u \<in> ?V' - set ?q'" by auto
      with s' have "set (nbrs m u) \<subseteq> ?V'" unfolding search_inv_def by blast
      with u(3) show ?thesis by auto
    qed
  qed
  have exp': "?q' \<noteq> [] \<longrightarrow> (\<forall>v \<in> ?V' - set ?q'. ?d v \<le> ?d (hd ?q'))"
  proof (intro impI ballI)
    fix v assume n: "?q' \<noteq> []" and v: "v \<in> ?V' - set ?q'"
    then have "v \<in> V" "v \<notin> set q" by auto
    then have "v = c \<or> v \<in> V - set (c # q)" by auto
    with exp have "?d v \<le> ?d c" by auto
    with hd_ge [OF n] show "?d v \<le> ?d (hd ?q')" by simp
  qed
  show ?thesis
    unfolding bfs_inv_def using s' srt' span' lev' exp' by blast
qed

lemma bfs_inv_init:
  assumes "open_cell m r"
  shows "bfs_inv m r t [r] {r} Map.empty"
proof -
  have "search_inv m r t (\<lambda>v p. length p = Suc (sdist m r v)) {r} Map.empty {r}"
    by (rule search_init [OF assms]) simp
  moreover have "\<forall>w. reach m r w \<and> sdist m r w \<le> 0 \<longrightarrow> w = r"
    using sdist_zero [of m r] by blast
  ultimately show ?thesis by (simp add: bfs_inv_def)
qed

lemma bfs_loop_sound:
  "has_rows m \<Longrightarrow> bfs_inv m (start m) (endc m) q V P
   \<Longrightarrow> sound m (\<lambda>p. length p = Suc (sdist m (start m) (endc m))) (bfs_loop m (q, V, P, n))"
proof (induction m "(q, V, P, n)" arbitrary: q V P n rule: bfs_loop.induct)
  case (1 m q V P n)
  note hr = "1.prems"(1) and inv = "1.prems"(2)
  let ?Q = "\<lambda>v p. length p = Suc (sdist m (start m) v)"
  from inv have s: "search_inv m (start m) (endc m) ?Q V P (set q)" by (simp add: bfs_inv_def)
  show ?case
  proof (cases q)
    case Nil
    with s search_done [of m _ _ ?Q V P] show ?thesis
      by (simp add: bfs_loop.simps sound_no_path)
  next
    case (Cons c q1)
    show ?thesis
    proof (cases "c = endc m")
      case True
      from search_found [OF s] Cons True
      obtain p where "reconstructPath P (start m) (endc m) = Some p" "walk_to m (start m) (endc m) p"
        "length p = Suc (sdist m (start m) (endc m))"
        by auto
      then show ?thesis
        using True Cons by (simp add: bfs_loop.simps bfs_step_def sound_found)
    next
      case False
      let ?ns = "nbrs m c"
      let ?s' = "(q1 @ filter (\<lambda>w. w \<notin> V) ?ns, V \<union> set ?ns, discovered c ?ns V P, n + 1)"
      have step: "bfs_step m (q, V, P, n) = Inr ?s'"
        using False getNeighbors_nbrs [OF hr, of c] Cons
          fold_discover [OF distinct_nbrs, of c m c V P q1]
        by (simp add: bfs_step_def Let_def)
      have "bfs_inv m (start m) (endc m) (q1 @ filter (\<lambda>w. w \<notin> V) ?ns) (V \<union> set ?ns) (discovered c ?ns V P)"
        using bfs_inv_step [OF inv [unfolded Cons] False] .
      from "1.hyps" [OF _ step hr this] Cons
      have "sound m (\<lambda>p. length p = Suc (sdist m (start m) (endc m))) (bfs_loop m ?s')" by simp
      then show ?thesis using Cons step by (simp add: bfs_loop.simps)
    qed
  qed
qed

subsection \<open>Reversal, parity and cells on a shortest walk\<close>

lemma walk_to_rev:
  assumes "walk_to m x y p" "open_cell m x"
  shows "walk_to m y x (rev p)"
proof -
  from assms have "walk m p" "hd p = x" "last p = y" "p \<noteq> []" by (auto simp: walk_to_def walk_def)
  then show ?thesis
    using walk_rev [of m p] assms(2) by (simp add: walk_to_def hd_rev last_rev)
qed

lemma walk_to_open: "walk_to m x y p \<Longrightarrow> open_cell m x \<Longrightarrow> open_cell m y"
  using walk_valid_path [of m p]
  by (auto simp: walk_to_def valid_path_def list_all_iff)

lemma reach_open: "reach m x y \<Longrightarrow> open_cell m x \<Longrightarrow> open_cell m y"
  by (auto simp: reach_def dest: walk_to_open)

lemma reach_sym: "reach m x y \<Longrightarrow> open_cell m x \<Longrightarrow> reach m y x"
  unfolding reach_def by (blast dest: walk_to_rev)

lemma sdist_sym:
  assumes "open_cell m x" "open_cell m y"
  shows "sdist m x y = sdist m y x"
proof -
  have "(\<exists>p. walk_to m x y p \<and> length p = Suc k) \<longleftrightarrow> (\<exists>p. walk_to m y x p \<and> length p = Suc k)" for k
  proof
    assume "\<exists>p. walk_to m x y p \<and> length p = Suc k"
    then obtain p where "walk_to m x y p" "length p = Suc k" by blast
    then have "walk_to m y x (rev p) \<and> length (rev p) = Suc k"
      using walk_to_rev assms by simp
    then show "\<exists>p. walk_to m y x p \<and> length p = Suc k" by blast
  next
    assume "\<exists>p. walk_to m y x p \<and> length p = Suc k"
    then obtain p where "walk_to m y x p" "length p = Suc k" by blast
    then have "walk_to m x y (rev p) \<and> length (rev p) = Suc k"
      using walk_to_rev assms by simp
    then show "\<exists>p. walk_to m x y p \<and> length p = Suc k" by blast
  qed
  then show ?thesis by (simp add: sdist_def)
qed

lemma walk_join:
  assumes "walk_to m x y p" "walk_to m y z q"
  shows "walk_to m x z (p @ tl q)"
proof (cases "tl q = []")
  case True
  then have "q = [y]" using assms(2) by (cases q) (auto simp: walk_to_def walk_def)
  then have "z = y" using assms(2) by (simp add: walk_to_def)
  with True assms(1) show ?thesis by simp
next
  case False
  from assms(2) have q: "q = y # tl q" by (cases q) (auto simp: walk_to_def walk_def)
  have "walk m (tl q)" "hd (tl q) \<in> set (nbrs m y)"
    using assms(2) False q
    by (metis list.sel(1) successively_Cons walk_def walk_to_def)+
  then have "walk m (p @ tl q)"
    using assms(1) by (intro walk_append) (auto simp: walk_to_def)
  moreover have "hd (p @ tl q) = x" using assms(1) by (auto simp: walk_to_def walk_def)
  moreover have "last (p @ tl q) = z"
    using assms(2) False q by (metis last_appendR last_tl walk_to_def)
  ultimately show ?thesis by (simp add: walk_to_def)
qed

lemma sdist_triangle:
  assumes "reach m x y" "reach m y z"
  shows "sdist m x z \<le> sdist m x y + sdist m y z"
proof -
  from sdist_walk [OF assms(1)] obtain p where p: "walk_to m x y p" "length p = Suc (sdist m x y)"
    by blast
  from sdist_walk [OF assms(2)] obtain q where q: "walk_to m y z q" "length q = Suc (sdist m y z)"
    by blast
  from sdist_le [OF walk_join [OF p(1) q(1)]] p(2) q(2) show ?thesis by simp
qed

lemma reach_trans: "reach m x y \<Longrightarrow> reach m y z \<Longrightarrow> reach m x z"
  unfolding reach_def by (blast dest: walk_join)

definition par :: "coord \<Rightarrow> bool" where
  "par v \<longleftrightarrow> even (fst v + snd v)"

lemma adjacent_par: "adjacent a b \<Longrightarrow> par a \<noteq> par b"
  unfolding adjacent_def par_def by (cases a; cases b) (auto simp: abs_if split: if_splits; presburger)

lemma walk_parity: "walk m p \<Longrightarrow> odd (length p) \<longleftrightarrow> (par (hd p) = par (last p))"
proof (induction p rule: rev_induct)
  case Nil
  then show ?case by (simp add: walk_def)
next
  case (snoc w p)
  show ?case
  proof (cases "p = []")
    case True
    then show ?thesis by simp
  next
    case False
    from walk_snocD [OF snoc.prems False] have w: "walk m p" "adjacent (last p) w"
      by (auto simp: nbrs_iff)
    from snoc.IH [OF w(1)] adjacent_par [OF w(2)] False show ?thesis by auto
  qed
qed

lemma sdist_parity:
  assumes "reach m x y"
  shows "even (sdist m x y) \<longleftrightarrow> (par x = par y)"
proof -
  from sdist_walk [OF assms] obtain p where p: "walk_to m x y p" "length p = Suc (sdist m x y)"
    by blast
  with walk_parity [of m p] show ?thesis by (auto simp: walk_to_def)
qed

lemma shortest_suffix:
  assumes "reach m a b" "k \<le> sdist m a b"
  shows "\<exists>y. reach m a y \<and> sdist m a y = sdist m a b - k \<and> reach m y b \<and> sdist m y b \<le> k"
  using assms(2)
proof (induction k)
  case 0
  show ?case using assms(1) reach_refl [of m b] by (intro exI [of _ b]) simp
next
  case (Suc k)
  then obtain y where y: "reach m a y" "sdist m a y = sdist m a b - k" "reach m y b" "sdist m y b \<le> k"
    by auto
  from Suc.prems have "sdist m a y = Suc (sdist m a b - Suc k)" using y(2) by simp
  from sdist_pred [OF y(1) this]
  obtain u where u: "reach m a u" "sdist m a u = sdist m a b - Suc k" "y \<in> set (nbrs m u)" by blast
  have ruy: "reach m u y" using reach_step [OF reach_refl u(3)] .
  have "sdist m u y \<le> 1" using sdist_step [OF reach_refl u(3)] by simp
  with sdist_triangle [OF ruy y(3)] y(4) have "sdist m u b \<le> Suc k" by simp
  moreover have "reach m u b" by (rule reach_trans [OF ruy y(3)])
  ultimately show ?case using u by blast
qed

lemma shortest_split:
  assumes "reach m a b" "t < sdist m a b"
  shows "\<exists>x y. reach m a x \<and> sdist m a x = t \<and> y \<in> set (nbrs m x) \<and> reach m y b
               \<and> Suc (t + sdist m y b) = sdist m a b"
proof -
  let ?L = "sdist m a b"
  from shortest_suffix [OF assms(1), of "?L - Suc t"] assms(2)
  obtain y where y: "reach m a y" "sdist m a y = Suc t" "reach m y b" "sdist m y b \<le> ?L - Suc t"
    by auto
  from sdist_pred [OF y(1,2)] obtain x where x: "reach m a x" "sdist m a x = t" "y \<in> set (nbrs m x)"
    by blast
  from sdist_triangle [OF y(1) y(3)] y(2) have "?L \<le> Suc t + sdist m y b" by simp
  with y(4) assms(2) have "Suc (t + sdist m y b) = ?L" by simp
  with x y(3) show ?thesis by blast
qed

subsection \<open>bidirectional\<close>

text \<open>
  No cell expanded from the start is equal or adjacent to a cell expanded from the end:
  an expanded cell was not yet visited by the other side when it left its queue. When a
  cell leaves a queue and the other side has visited it, its two distances add up to at
  most one more than the distance between start and end; as every walk between two cells
  of a grid has the same parity, they add up to exactly that distance.
\<close>

definition far :: "maze \<Rightarrow> coord set \<Rightarrow> coord set \<Rightarrow> bool" where
  "far m A B \<longleftrightarrow> (\<forall>x \<in> A. \<forall>y \<in> B. x \<noteq> y \<and> y \<notin> set (nbrs m x) \<and> x \<notin> set (nbrs m y))"

lemma far_sym: "far m A B \<Longrightarrow> far m B A"
  by (auto simp: far_def)

lemma bfs_inv_below:
  assumes inv: "bfs_inv m a b q V P" and u: "u \<in> V" and w: "reach m a w" "Suc (sdist m a w) < sdist m a u"
  shows "w \<in> V - set q"
proof (cases "q = []")
  case True
  from inv have s: "search_inv m a b (\<lambda>v p. length p = Suc (sdist m a v)) V P (set q)"
    by (simp add: bfs_inv_def)
  with True have "a \<in> V" "\<forall>v \<in> V. set (nbrs m v) \<subseteq> V"
    by (auto simp: search_inv_def tree_inv_def)
  moreover from w(1) obtain p where "walk m p" "hd p = a" "last p = w"
    by (auto simp: reach_def walk_to_def)
  ultimately have "w \<in> V" using closed_reach [of a V m p] by auto
  with True show ?thesis by simp
next
  case False
  let ?d = "sdist m a"
  from inv False have srt: "sorted (map ?d q)" and span: "?d (last q) \<le> Suc (?d (hd q))"
    and lev: "\<forall>w. reach m a w \<and> ?d w \<le> ?d (hd q) \<longrightarrow> w \<in> V"
    and exp: "\<forall>v \<in> V - set q. ?d v \<le> ?d (hd q)"
    by (auto simp: bfs_inv_def)
  have "?d u \<le> Suc (?d (hd q))"
  proof (cases "u \<in> set q")
    case True
    from sorted_map_le_last [OF srt True] span show ?thesis by simp
  next
    case False
    with u have "u \<in> V - set q" by simp
    with exp have "?d u \<le> ?d (hd q)" by blast
    then show ?thesis by simp
  qed
  with w(2) have lt: "?d w < ?d (hd q)" by simp
  with lev w(1) have "w \<in> V" by (metis less_imp_le)
  moreover have "w \<notin> set q"
  proof
    assume "w \<in> set q"
    from sorted_map_hd_le [OF srt this] lt show False by simp
  qed
  ultimately show ?thesis by simp
qed

lemma bfs_inv_below_hd:
  assumes inv: "bfs_inv m a b q V P" and ne: "q \<noteq> []" and w: "reach m a w" "sdist m a w < sdist m a (hd q)"
  shows "w \<in> V - set q"
proof -
  let ?d = "sdist m a"
  from inv ne have srt: "sorted (map ?d q)"
    and lev: "\<forall>w. reach m a w \<and> ?d w \<le> ?d (hd q) \<longrightarrow> w \<in> V"
    by (auto simp: bfs_inv_def)
  from lev w have "w \<in> V" by (metis less_imp_le)
  moreover have "w \<notin> set q"
  proof
    assume "w \<in> set q"
    from sorted_map_hd_le [OF srt this] w(2) show False by simp
  qed
  ultimately show ?thesis by simp
qed

lemma meet_bound:
  assumes A: "bfs_inv m a b qa VA PA" and B: "bfs_inv m b a qb VB PB"
    and f: "far m (VA - set qa) (VB - set qb)"
    and ne: "qa \<noteq> []" and u: "hd qa \<in> VB"
  shows "sdist m a (hd qa) + sdist m b (hd qa) = sdist m a b"
proof -
  let ?u = "hd qa"
  let ?i = "sdist m a ?u" and ?j = "sdist m b ?u" and ?L = "sdist m a b"
  from A have sA: "search_inv m a b (\<lambda>v p. length p = Suc (sdist m a v)) VA PA (set qa)"
    by (simp add: bfs_inv_def)
  from B have sB: "search_inv m b a (\<lambda>v p. length p = Suc (sdist m b v)) VB PB (set qb)"
    by (simp add: bfs_inv_def)
  from sA have tA: "tree_inv m a (\<lambda>v p. length p = Suc (sdist m a v)) VA PA"
    and nb: "b \<notin> VA - set qa" by (auto simp: search_inv_def)
  from sB have tB: "tree_inv m b (\<lambda>v p. length p = Suc (sdist m b v)) VB PB"
    and na: "a \<notin> VB - set qb" by (auto simp: search_inv_def)
  have oa: "open_cell m a" and ob: "open_cell m b"
    using tA tB by (auto simp: tree_inv_def)
  have uA: "?u \<in> VA" using sA ne by (auto simp: search_inv_def)
  have rau: "reach m a ?u" by (rule tree_reach [OF tA uA])
  have rbu: "reach m b ?u" by (rule tree_reach [OF tB u])
  have ou: "open_cell m ?u" using tA uA by (auto simp: tree_inv_def)
  have rub: "reach m ?u b" by (rule reach_sym [OF rbu ob])
  have rab: "reach m a b" by (rule reach_trans [OF rau rub])
  have rba: "reach m b a" by (rule reach_sym [OF rab oa])
  have Lsym: "sdist m b a = ?L" by (rule sdist_sym [OF ob oa])
  have ge: "?L \<le> ?i + ?j"
    using sdist_triangle [OF rau rub] sdist_sym [OF ou ob] by simp
  have le: "?i + ?j \<le> Suc ?L"
  proof (rule ccontr)
    assume "\<not> ?i + ?j \<le> Suc ?L"
    then have big: "Suc (Suc ?L) \<le> ?i + ?j" by simp
    show False
    proof (cases "?j \<le> 1")
      case True
      with big have "?L < ?i" by simp
      from bfs_inv_below_hd [OF A ne rab this] nb show False by simp
    next
      case j2: False
      show False
      proof (cases "Suc ?L < ?j")
        case True
        then have "Suc (sdist m b a) < sdist m b ?u" by (simp add: Lsym)
        from bfs_inv_below [OF B u rba this] na show False by simp
      next
        case False
        let ?t = "Suc ?L - ?j"
        have t: "?t < ?L" using j2 False by simp
        from shortest_split [OF rab t]
        obtain x y where x: "reach m a x" "sdist m a x = ?t" and y: "y \<in> set (nbrs m x)" "reach m y b"
          and sum: "Suc (?t + sdist m y b) = ?L" by blast
        have "sdist m a x < ?i" using x(2) big False by simp
        from bfs_inv_below_hd [OF A ne x(1) this] have xX: "x \<in> VA - set qa" .
        have oy: "open_cell m y" using y(1) by (simp add: nbrs_iff)
        have dy: "sdist m b y = sdist m y b" by (rule sdist_sym [OF ob oy])
        have "Suc (sdist m b y) < ?j" using sum dy j2 False by simp
        moreover have "reach m b y" by (rule reach_sym [OF y(2) oy])
        ultimately have "y \<in> VB - set qb" using bfs_inv_below [OF B u] by blast
        with f xX y(1) show False by (auto simp: far_def)
      qed
    qed
  qed
  have "even (?i + ?j) \<longleftrightarrow> even ?L"
    using sdist_parity [OF rau] sdist_parity [OF rbu] sdist_parity [OF rab] by auto
  with ge le show ?thesis by (cases "?i + ?j = Suc ?L") auto
qed

lemma meet_path:
  assumes tA: "tree_inv m a (\<lambda>v p. length p = Suc (sdist m a v)) VA PA"
    and tB: "tree_inv m b (\<lambda>v p. length p = Suc (sdist m b v)) VB PB"
    and u: "u \<in> VA" "u \<in> VB"
  shows "\<exists>p. reconstructBidirectionalPath PA PB a u b = Some p \<and> walk_to m a b p
              \<and> length p = Suc (sdist m a u + sdist m b u)"
proof -
  from tree_chain [OF tA u(1)] obtain p where p: "chain PA a p" "last p = u" "walk_to m a u p"
    "length p = Suc (sdist m a u)" by blast
  from tree_chain [OF tB u(2)] obtain q where q: "chain PB b q" "last q = u" "walk_to m b u q"
    "length q = Suc (sdist m b u)" by blast
  have ob: "open_cell m b" using tB by (auto simp: tree_inv_def)
  have r1: "reconstructPath_loop PA a (Some u) [] = Some p"
    using reconstruct_chain [OF p(1), of "[]"] p(2) by simp
  have r2: "pathEnd_loop PB b (PB u) [] = Some (tl (rev q))"
  proof (cases "butlast q = []")
    case True
    then have "q = [b]" using q(1) by (cases q) (auto simp: chain_def split: if_splits)
    then have "u = b" using q(2) by simp
    moreover have "PB b = None" using tB by (simp add: tree_inv_def)
    ultimately show ?thesis using \<open>q = [b]\<close> by (simp add: pathEnd_loop.simps)
  next
    case False
    have qq: "q = butlast q @ [u]"
      using q(1,2) by (metis append_butlast_last_id chain_def)
    from chain_snocD [of PB b "butlast q" u] qq q(1) False
    have c: "chain PB b (butlast q)" "PB u = Some (last (butlast q))" by auto
    from pathEnd_chain [OF c(1), of "[]"] c(2)
    have "pathEnd_loop PB b (PB u) [] = Some (rev (butlast q))" by simp
    moreover have "rev (butlast q) = tl (rev q)"
      by (subst (2) qq) simp
    ultimately show ?thesis by simp
  qed
  have "walk_to m a b (p @ tl (rev q))"
    by (rule walk_join [OF p(3) walk_to_rev [OF q(3) ob]])
  moreover have "length (p @ tl (rev q)) = Suc (sdist m a u + sdist m b u)"
    using p(4) q(4) by simp
  ultimately show ?thesis
    using r1 r2 by (simp add: reconstructBidirectionalPath_def)
qed

definition bidi_inv ::
  "maze \<Rightarrow> coord list \<Rightarrow> coord list \<Rightarrow> coord set \<Rightarrow> coord set \<Rightarrow> (coord \<Rightarrow> coord option)
     \<Rightarrow> (coord \<Rightarrow> coord option) \<Rightarrow> bool" where
  "bidi_inv m qs qe VS VE PS PE \<longleftrightarrow>
     bfs_inv m (start m) (endc m) qs VS PS \<and> bfs_inv m (endc m) (start m) qe VE PE \<and>
     far m (VS - set qs) (VE - set qe)"

lemma far_step:
  assumes f: "far m (VA - set (c # qa)) (VB - set qb)"
    and sB: "search_inv m b a Q VB PB (set qb)"
    and c: "c \<notin> VB" "open_cell m c"
  shows "far m ((VA \<union> set (nbrs m c)) - set (qa @ filter (\<lambda>w. w \<notin> VA) (nbrs m c))) (VB - set qb)"
proof -
  have sub: "(VA \<union> set (nbrs m c)) - set (qa @ filter (\<lambda>w. w \<notin> VA) (nbrs m c))
             \<subseteq> insert c (VA - set (c # qa))"
    by auto
  have "x \<noteq> y \<and> y \<notin> set (nbrs m x) \<and> x \<notin> set (nbrs m y)"
    if x: "x \<in> insert c (VA - set (c # qa))" and y: "y \<in> VB - set qb" for x y
  proof (cases "x = c")
    case False
    with x y f show ?thesis by (auto simp: far_def)
  next
    case True
    from sB y have cl: "set (nbrs m y) \<subseteq> VB" by (auto simp: search_inv_def)
    have "c \<noteq> y" using c(1) y by auto
    moreover have "c \<notin> set (nbrs m y)" using cl c(1) by auto
    moreover have "y \<notin> set (nbrs m c)"
      using nbrs_sym [of y m c] c(2) \<open>c \<notin> set (nbrs m y)\<close> by auto
    ultimately show ?thesis using True by simp
  qed
  then have "far m (insert c (VA - set (c # qa))) (VB - set qb)"
    unfolding far_def by blast
  with sub show ?thesis unfolding far_def by blast
qed

lemma expand_start_eq:
  assumes "has_rows m"
  shows "expand_start m (c # qs, qe, VS, VE, PS, PE, n) =
         (if c \<in> VE
          then Inl (found (reconstructBidirectionalPath PS PE (start m) c (endc m)) (n + 1) True None)
          else Inr (qs @ filter (\<lambda>w. w \<notin> VS) (nbrs m c), qe, VS \<union> set (nbrs m c), VE,
                    discovered c (nbrs m c) VS PS, PE, n + 1))"
  using getNeighbors_nbrs [OF assms, of c] fold_discover [OF distinct_nbrs, of c m c VS PS qs]
  by (simp add: expand_start_def Let_def)

lemma expand_end_eq:
  assumes "has_rows m"
  shows "expand_end m (qs, c # qe, VS, VE, PS, PE, n) =
         (if c \<in> VS
          then Inl (found (reconstructBidirectionalPath PS PE (start m) c (endc m)) (n + 1) True None)
          else Inr (qs, qe @ filter (\<lambda>w. w \<notin> VE) (nbrs m c), VS, VE \<union> set (nbrs m c),
                    PS, discovered c (nbrs m c) VE PE, n + 1))"
  using getNeighbors_nbrs [OF assms, of c] fold_discover [OF distinct_nbrs, of c m c VE PE qe]
  by (simp add: expand_end_def Let_def)

lemma bidi_meet_sound:
  assumes inv: "bidi_inv m qs qe VS VE PS PE"
    and u: "(qs \<noteq> [] \<and> u = hd qs \<and> u \<in> VE) \<or> (qe \<noteq> [] \<and> u = hd qe \<and> u \<in> VS)"
  shows "sound m (\<lambda>p. length p = Suc (sdist m (start m) (endc m)))
           (found (reconstructBidirectionalPath PS PE (start m) u (endc m)) n opt h)"
proof -
  let ?a = "start m" and ?b = "endc m"
  from inv have A: "bfs_inv m ?a ?b qs VS PS" and B: "bfs_inv m ?b ?a qe VE PE"
    and f: "far m (VS - set qs) (VE - set qe)" by (auto simp: bidi_inv_def)
  from A have tA: "tree_inv m ?a (\<lambda>v p. length p = Suc (sdist m ?a v)) VS PS"
    and qsV: "set qs \<subseteq> VS" by (auto simp: bfs_inv_def search_inv_def)
  from B have tB: "tree_inv m ?b (\<lambda>v p. length p = Suc (sdist m ?b v)) VE PE"
    and qeV: "set qe \<subseteq> VE" by (auto simp: bfs_inv_def search_inv_def)
  have oa: "open_cell m ?a" and ob: "open_cell m ?b" using tA tB by (auto simp: tree_inv_def)
  have uV: "u \<in> VS" "u \<in> VE" using u qsV qeV by (auto dest: hd_in_set)
  have d: "sdist m ?a u + sdist m ?b u = sdist m ?a ?b"
  proof (cases "qs \<noteq> [] \<and> u = hd qs \<and> u \<in> VE")
    case True
    then have e: "qs \<noteq> []" "hd qs = u" "hd qs \<in> VE" by auto
    from meet_bound [OF A B f e(1) e(3)] show ?thesis unfolding e(2) .
  next
    case False
    with u have e: "qe \<noteq> []" "hd qe = u" "hd qe \<in> VS" by auto
    from meet_bound [OF B A far_sym [OF f] e(1) e(3)]
    have "sdist m ?b u + sdist m ?a u = sdist m ?b ?a" unfolding e(2) .
    then show ?thesis using sdist_sym [OF oa ob] by simp
  qed
  from meet_path [OF tA tB uV] d
  obtain p where "reconstructBidirectionalPath PS PE ?a u ?b = Some p" "walk_to m ?a ?b p"
    "length p = Suc (sdist m ?a ?b)" by auto
  then show ?thesis by (simp add: sound_found)
qed

lemma bidi_no_path:
  assumes inv: "bidi_inv m qs qe VS VE PS PE" and e: "qs = [] \<or> qe = []"
  shows "\<not> reach m (start m) (endc m)"
proof -
  from inv have sA: "search_inv m (start m) (endc m) (\<lambda>v p. length p = Suc (sdist m (start m) v)) VS PS (set qs)"
    and sB: "search_inv m (endc m) (start m) (\<lambda>v p. length p = Suc (sdist m (endc m) v)) VE PE (set qe)"
    by (auto simp: bidi_inv_def bfs_inv_def)
  have oa: "open_cell m (start m)" using sA by (auto simp: search_inv_def tree_inv_def)
  show ?thesis
  proof (cases "qs = []")
    case True
    with sA search_done [of m "start m" "endc m" _ VS PS] show ?thesis by simp
  next
    case False
    with e sB search_done [of m "endc m" "start m" _ VE PE]
    have "\<not> reach m (endc m) (start m)" by simp
    then show ?thesis using reach_sym [OF _ oa] by blast
  qed
qed

lemma bidirectional_loop_sound:
  "has_rows m \<Longrightarrow> bidi_inv m qs qe VS VE PS PE
   \<Longrightarrow> sound m (\<lambda>p. length p = Suc (sdist m (start m) (endc m)))
         (bidirectional_loop m (qs, qe, VS, VE, PS, PE, n))"
proof (induction m "(qs, qe, VS, VE, PS, PE, n)" arbitrary: qs qe VS VE PS PE n
    rule: bidirectional_loop.induct)
  case (1 m qs qe VS VE PS PE n)
  note hr = "1.prems"(1) and inv = "1.prems"(2)
  let ?a = "start m" and ?b = "endc m"
  let ?S = "\<lambda>p. length p = Suc (sdist m ?a ?b)"
  show ?case
  proof (cases "qs = [] \<or> qe = []")
    case True
    with bidi_no_path [OF inv] show ?thesis
      by (auto simp: bidirectional_loop.simps sound_no_path)
  next
    case False
    then obtain c qs1 d qe1 where q: "qs = c # qs1" "qe = d # qe1"
      by (cases qs; cases qe) auto
    have cond: "0 < length qs \<and> 0 < length qe" using q by simp
    from inv have A: "bfs_inv m ?a ?b qs VS PS" and B: "bfs_inv m ?b ?a qe VE PE"
      and f: "far m (VS - set qs) (VE - set qe)" by (auto simp: bidi_inv_def)
    from B have sB: "search_inv m ?b ?a (\<lambda>v p. length p = Suc (sdist m ?b v)) VE PE (set qe)"
      and bE: "?b \<in> VE"
      by (auto simp: bfs_inv_def search_inv_def tree_inv_def)
    from A have aS: "?a \<in> VS" and oS: "\<forall>v \<in> VS. open_cell m v" and qsV: "set qs \<subseteq> VS"
      by (auto simp: bfs_inv_def search_inv_def tree_inv_def)
    show ?thesis
    proof (cases "c \<in> VE")
      case True
      have "sound m ?S (found (reconstructBidirectionalPath PS PE ?a c ?b) (n + 1) True None)"
        by (rule bidi_meet_sound [OF inv]) (use q True in simp)
      then show ?thesis
        using q True expand_start_eq [OF hr, of c qs1 qe VS VE PS PE n]
        by (simp add: bidirectional_loop.simps bidirectional_step_def)
    next
      case cE: False
      let ?ns = "nbrs m c"
      let ?qs' = "qs1 @ filter (\<lambda>w. w \<notin> VS) ?ns"
      let ?VS' = "VS \<union> set ?ns"
      let ?PS' = "discovered c ?ns VS PS"
      have es: "expand_start m (qs, qe, VS, VE, PS, PE, n) = Inr (?qs', qe, ?VS', VE, ?PS', PE, n + 1)"
        using q cE expand_start_eq [OF hr, of c qs1 qe VS VE PS PE n] by simp
      have cb: "c \<noteq> ?b" using cE bE by auto
      have A': "bfs_inv m ?a ?b ?qs' ?VS' ?PS'"
        using bfs_inv_step [OF A [unfolded q] cb] .
      have oc: "open_cell m c" using oS qsV q by auto
      have f': "far m (?VS' - set ?qs') (VE - set qe)"
        using far_step [OF f [unfolded q(1)] sB cE oc] .
      have inv1: "bidi_inv m ?qs' qe ?VS' VE ?PS' PE"
        using A' B f' by (simp add: bidi_inv_def)
      from A' have sA': "search_inv m ?a ?b (\<lambda>v p. length p = Suc (sdist m ?a v)) ?VS' ?PS' (set ?qs')"
        and aS': "?a \<in> ?VS'"
        by (auto simp: bfs_inv_def search_inv_def tree_inv_def)
      show ?thesis
      proof (cases "d \<in> ?VS'")
        case True
        have "sound m ?S (found (reconstructBidirectionalPath ?PS' PE ?a d ?b) (n + 1 + 1) True None)"
          by (rule bidi_meet_sound [OF inv1]) (use q True in simp)
        then show ?thesis
          using q True es expand_end_eq [OF hr, of ?qs' d qe1 ?VS' VE ?PS' PE "n + 1"]
          by (simp add: bidirectional_loop.simps bidirectional_step_def)
      next
        case dS: False
        let ?ne = "nbrs m d"
        let ?qe' = "qe1 @ filter (\<lambda>w. w \<notin> VE) ?ne"
        let ?VE' = "VE \<union> set ?ne"
        let ?PE' = "discovered d ?ne VE PE"
        have ee: "expand_end m (?qs', qe, ?VS', VE, ?PS', PE, n + 1)
                  = Inr (?qs', ?qe', ?VS', ?VE', ?PS', ?PE', n + 1 + 1)"
          using q dS expand_end_eq [OF hr, of ?qs' d qe1 ?VS' VE ?PS' PE "n + 1"] by simp
        have step: "bidirectional_step m (qs, qe, VS, VE, PS, PE, n)
                  = Inr (?qs', ?qe', ?VS', ?VE', ?PS', ?PE', n + 1 + 1)"
          using es ee by (simp add: bidirectional_step_def)
        have da: "d \<noteq> ?a" using dS aS' by auto
        have B': "bfs_inv m ?b ?a ?qe' ?VE' ?PE'"
          using bfs_inv_step [OF B [unfolded q] da] .
        have od: "open_cell m d" using B q by (auto simp: bfs_inv_def search_inv_def tree_inv_def)
        have "far m (?VE' - set ?qe') (?VS' - set ?qs')"
          using far_step [OF far_sym [OF f', unfolded q(2)] sA' dS od] .
        then have f'': "far m (?VS' - set ?qs') (?VE' - set ?qe')" by (rule far_sym)
        have inv2: "bidi_inv m ?qs' ?qe' ?VS' ?VE' ?PS' ?PE'"
          using A' B' f'' by (simp add: bidi_inv_def)
        from "1.hyps" [OF cond step hr inv2]
        show ?thesis using cond step by (simp add: bidirectional_loop.simps)
      qed
    qed
  qed
qed

section \<open>Searches that relax distances: dijkstra and astar\<close>

text \<open>
  Both loops relax with the same rule; they differ in the priority \<open>key t v\<close> under which
  a cell \<open>v\<close> of tentative distance \<open>t\<close> is enqueued: \<open>t\<close> for \<^verbatim>\<open>dijkstra\<close>, \<open>t\<close> plus the
  heuristic for \<^verbatim>\<open>astar\<close>. The proof needs the key to order the distances of one cell and
  not to decrease along a move (the heuristic is consistent).

  \<open>pq_inv m key V W g P pq\<close>: \<open>V\<close> is the visited set, every cell of \<open>W\<close> has had all its
  neighbours relaxed, \<open>g\<close> are the tentative distances, \<open>P\<close> the parents, \<open>pq\<close> the queue.
\<close>

definition grelax ::
  "(nat \<Rightarrow> coord \<Rightarrow> 'p::linorder) \<Rightarrow> coord \<Rightarrow> nat \<Rightarrow> coord
     \<Rightarrow> (coord \<Rightarrow> nat option) \<times> (coord \<Rightarrow> coord option) \<times> (coord, 'p) pqueue
     \<Rightarrow> (coord \<Rightarrow> nat option) \<times> (coord \<Rightarrow> coord option) \<times> (coord, 'p) pqueue" where
  "grelax key c t nb s =
     (case s of (g, P, pq) \<Rightarrow>
        if g nb = None \<or> t < the (g nb)
        then (g(nb \<mapsto> t), P(nb \<mapsto> c), enqueue nb (key t nb) pq)
        else (g, P, pq))"

definition key_ok :: "maze \<Rightarrow> (nat \<Rightarrow> coord \<Rightarrow> 'p::linorder) \<Rightarrow> bool" where
  "key_ok m key \<longleftrightarrow>
     (\<forall>v t t'. key t v \<le> key t' v \<longleftrightarrow> t \<le> t') \<and>
     (\<forall>v w t. w \<in> set (nbrs m v) \<longrightarrow> key t v \<le> key (Suc t) w)"

definition pq_inv ::
  "maze \<Rightarrow> (nat \<Rightarrow> coord \<Rightarrow> 'p::linorder) \<Rightarrow> coord set \<Rightarrow> coord set \<Rightarrow> (coord \<Rightarrow> nat option)
     \<Rightarrow> (coord \<Rightarrow> coord option) \<Rightarrow> (coord, 'p) pqueue \<Rightarrow> bool" where
  "pq_inv m key V W g P pq \<longleftrightarrow>
     g (start m) = Some 0 \<and> P (start m) = None \<and>
     (\<forall>v t. g v = Some t \<and> v \<noteq> start m \<longrightarrow>
        (\<exists>u tu. P v = Some u \<and> g u = Some tu \<and> v \<in> set (nbrs m u) \<and> Suc tu \<le> t)) \<and>
     (\<forall>v \<in> V. g v = Some (sdist m (start m) v)) \<and>
     (\<forall>v \<in> W. \<forall>w \<in> set (nbrs m v). \<exists>tv tw. g v = Some tv \<and> g w = Some tw \<and> tw \<le> Suc tv) \<and>
     (\<forall>v t. g v = Some t \<and> v \<notin> V \<longrightarrow> (v, key t v) \<in> set pq) \<and>
     (\<forall>e \<in> set pq. \<exists>t. g (fst e) = Some t \<and> key t (fst e) \<le> snd e) \<and>
     sorted (map snd pq) \<and> endc m \<notin> V \<and> W \<subseteq> V"

lemma key_ok_le: "key_ok m key \<Longrightarrow> key t v \<le> key t' v \<longleftrightarrow> t \<le> t'"
  unfolding key_ok_def by blast

lemma key_ok_step: "key_ok m key \<Longrightarrow> w \<in> set (nbrs m v) \<Longrightarrow> key t v \<le> key (Suc t) w"
  unfolding key_ok_def by blast

lemma pq_inv_start: "pq_inv m key V W g P pq \<Longrightarrow> g (start m) = Some 0 \<and> P (start m) = None"
  by (simp add: pq_inv_def)

lemma pq_inv_parent:
  "pq_inv m key V W g P pq \<Longrightarrow> g v = Some t \<Longrightarrow> v \<noteq> start m
   \<Longrightarrow> \<exists>u tu. P v = Some u \<and> g u = Some tu \<and> v \<in> set (nbrs m u) \<and> Suc tu \<le> t"
  unfolding pq_inv_def by blast

lemma pq_inv_visited: "pq_inv m key V W g P pq \<Longrightarrow> v \<in> V \<Longrightarrow> g v = Some (sdist m (start m) v)"
  unfolding pq_inv_def by blast

lemma pq_inv_closed:
  "pq_inv m key V W g P pq \<Longrightarrow> v \<in> W \<Longrightarrow> w \<in> set (nbrs m v)
   \<Longrightarrow> \<exists>tv tw. g v = Some tv \<and> g w = Some tw \<and> tw \<le> Suc tv"
  unfolding pq_inv_def by blast

lemma pq_inv_open: "pq_inv m key V W g P pq \<Longrightarrow> g v = Some t \<Longrightarrow> v \<notin> V \<Longrightarrow> (v, key t v) \<in> set pq"
  unfolding pq_inv_def by blast

lemma pq_inv_entry:
  "pq_inv m key V W g P pq \<Longrightarrow> (v, p) \<in> set pq \<Longrightarrow> \<exists>t. g v = Some t \<and> key t v \<le> p"
  unfolding pq_inv_def by fastforce

lemma pq_inv_sorted: "pq_inv m key V W g P pq \<Longrightarrow> sorted (map snd pq)"
  by (simp add: pq_inv_def)

lemma pq_inv_misc: "pq_inv m key V W g P pq \<Longrightarrow> endc m \<notin> V \<and> W \<subseteq> V"
  by (simp add: pq_inv_def)

lemma g_chain:
  assumes inv: "pq_inv m key V W g P pq"
  shows "g v = Some t \<Longrightarrow>
         \<exists>p. chain P (start m) p \<and> last p = v \<and> walk_to m (start m) v p \<and> length p \<le> Suc t"
proof (induction t arbitrary: v rule: less_induct)
  case (less t)
  show ?case
  proof (cases "v = start m")
    case True
    have "chain P (start m) [start m] \<and> last [start m] = v \<and> walk_to m (start m) v [start m]
          \<and> length [start m] \<le> Suc t"
      using True by (simp add: walk_to_def)
    then show ?thesis by blast
  next
    case False
    from pq_inv_parent [OF inv less.prems False]
    obtain u tu where u: "P v = Some u" "g u = Some tu" "v \<in> set (nbrs m u)" "Suc tu \<le> t" by blast
    from less.IH [of tu u] u obtain p where p: "chain P (start m) p" "last p = u"
      "walk_to m (start m) u p" "length p \<le> Suc tu" by auto
    have ne: "p \<noteq> []" using p(1) by (simp add: chain_def)
    have "chain P (start m) (p @ [v])" using p(1,2) u(1) False by (intro chain_snoc) auto
    moreover have "walk_to m (start m) v (p @ [v])"
      using p(3) u(3) ne walk_snoc [of m p v] by (simp add: walk_to_def)
    moreover have "length (p @ [v]) \<le> Suc t" using p(4) u(4) by simp
    ultimately show ?thesis by (intro exI [of _ "p @ [v]"]) simp
  qed
qed

lemma g_reach:
  assumes "pq_inv m key V W g P pq" "g v = Some t"
  shows "reach m (start m) v \<and> sdist m (start m) v \<le> t"
proof -
  from g_chain [OF assms] obtain p where p: "walk_to m (start m) v p" "length p \<le> Suc t" by blast
  from sdist_le [OF p(1)] p(2) have "sdist m (start m) v \<le> t" by simp
  with p(1) show ?thesis by (auto simp: reach_def)
qed

lemma pq_inv_init:
  "pq_inv m key {} {} [start m \<mapsto> 0] Map.empty [(start m, key 0 (start m))]"
  by (simp add: pq_inv_def)

lemma pq_inv_empty:
  assumes inv: "pq_inv m key V V g P []"
  shows "\<not> reach m (start m) (endc m)"
proof
  assume "reach m (start m) (endc m)"
  then obtain p where p: "walk m p" "hd p = start m" "last p = endc m"
    by (auto simp: reach_def walk_to_def)
  have dom: "\<And>v t. g v = Some t \<Longrightarrow> v \<in> V" using pq_inv_open [OF inv] by fastforce
  have "start m \<in> V" using pq_inv_start [OF inv] dom by blast
  moreover have "\<forall>v \<in> V. set (nbrs m v) \<subseteq> V"
    using pq_inv_closed [OF inv] dom by blast
  ultimately have "endc m \<in> V" using closed_reach [of "start m" V m p] p by simp
  with pq_inv_misc [OF inv] show False by simp
qed

lemma pq_inv_skip:
  assumes inv: "pq_inv m key V V g P ((u, p) # pq)" and u: "u \<in> V"
  shows "pq_inv m key V V g P pq"
proof -
  have "(v, key t v) \<in> set pq" if "g v = Some t" "v \<notin> V" for v t
    using pq_inv_open [OF inv that] that(2) u by auto
  moreover have "\<forall>e \<in> set pq. \<exists>t. g (fst e) = Some t \<and> key t (fst e) \<le> snd e"
    using inv by (simp add: pq_inv_def)
  moreover have "sorted (map snd pq)" using pq_inv_sorted [OF inv] by simp
  ultimately show ?thesis using inv unfolding pq_inv_def by blast
qed

lemma key_path:
  assumes k: "key_ok m key"
  shows "reach m z u \<Longrightarrow> sdist m z u = n \<Longrightarrow> key t z \<le> key (t + n) u"
proof (induction n arbitrary: u)
  case 0
  then have "u = z" using sdist_zero by blast
  then show ?case by simp
next
  case (Suc n)
  from sdist_pred [OF Suc.prems] obtain w where w: "reach m z w" "sdist m z w = n" "u \<in> set (nbrs m w)"
    by blast
  from Suc.IH [OF w(1,2)] have "key t z \<le> key (t + n) w" .
  also have "\<dots> \<le> key (Suc (t + n)) u" by (rule key_ok_step [OF k w(3)])
  finally show ?case by simp
qed

lemma frontier_on_shortest:
  assumes inv: "pq_inv m key V V g P pq" and u: "reach m (start m) u" "u \<notin> V"
  shows "k \<le> sdist m (start m) u \<Longrightarrow>
         (\<exists>z. z \<notin> V \<and> g z = Some (sdist m (start m) z) \<and> reach m z u
               \<and> sdist m (start m) z + sdist m z u = sdist m (start m) u)
         \<or> (\<exists>x. x \<in> V \<and> sdist m (start m) x = k \<and> reach m x u
               \<and> k + sdist m x u = sdist m (start m) u)"
proof (induction k)
  case 0
  let ?s = "start m"
  have g0: "g ?s = Some (sdist m ?s ?s)" using pq_inv_start [OF inv] by simp
  show ?case
  proof (cases "?s \<in> V")
    case True
    then have "?s \<in> V \<and> sdist m ?s ?s = 0 \<and> reach m ?s u \<and> 0 + sdist m ?s u = sdist m ?s u"
      using u(1) by simp
    then show ?thesis by blast
  next
    case False
    then have "?s \<notin> V \<and> g ?s = Some (sdist m ?s ?s) \<and> reach m ?s u
               \<and> sdist m ?s ?s + sdist m ?s u = sdist m ?s u"
      using g0 u(1) by simp
    then show ?thesis by blast
  qed
next
  case (Suc k)
  let ?s = "start m"
  let ?L = "sdist m ?s u"
  from Suc have "(\<exists>z. z \<notin> V \<and> g z = Some (sdist m ?s z) \<and> reach m z u \<and> sdist m ?s z + sdist m z u = ?L)
         \<or> (\<exists>x. x \<in> V \<and> sdist m ?s x = k \<and> reach m x u \<and> k + sdist m x u = ?L)"
    by simp
  then show ?case
  proof
    assume "\<exists>z. z \<notin> V \<and> g z = Some (sdist m ?s z) \<and> reach m z u \<and> sdist m ?s z + sdist m z u = ?L"
    then show ?thesis by blast
  next
    assume "\<exists>x. x \<in> V \<and> sdist m ?s x = k \<and> reach m x u \<and> k + sdist m x u = ?L"
    then obtain x where x: "x \<in> V" "sdist m ?s x = k" "reach m x u" "k + sdist m x u = ?L" by blast
    have gx: "g x = Some k" using pq_inv_visited [OF inv x(1)] x(2) by simp
    have rx: "reach m ?s x" using g_reach [OF inv gx] by simp
    have pos: "0 < sdist m x u" using x(4) Suc.prems by simp
    from shortest_split [OF x(3) pos]
    obtain x' y where xy: "reach m x x'" "sdist m x x' = 0" "y \<in> set (nbrs m x')" "reach m y u"
      "Suc (0 + sdist m y u) = sdist m x u" by blast
    from sdist_zero [OF xy(1,2)] have "x' = x" .
    with xy have y: "y \<in> set (nbrs m x)" "reach m y u" "Suc (sdist m y u) = sdist m x u" by auto
    have ry: "reach m ?s y" by (rule reach_step [OF rx y(1)])
    have "sdist m ?s y \<le> Suc k" using sdist_step [OF rx y(1)] x(2) by simp
    moreover have "?L \<le> sdist m ?s y + sdist m y u" by (rule sdist_triangle [OF ry y(2)])
    ultimately have dy: "sdist m ?s y = Suc k" using y(3) x(4) by simp
    from pq_inv_closed [OF inv x(1) y(1)] gx obtain ty where ty: "g y = Some ty" "ty \<le> Suc k"
      by auto
    from g_reach [OF inv ty(1)] dy ty(2) have "ty = Suc k" by simp
    with ty dy have gy: "g y = Some (sdist m ?s y)" by simp
    have sum: "sdist m ?s y + sdist m y u = ?L" using dy y(3) x(4) by simp
    show ?thesis
    proof (cases "y \<in> V")
      case True
      with dy y(2) sum have "y \<in> V \<and> sdist m ?s y = Suc k \<and> reach m y u \<and> Suc k + sdist m y u = ?L"
        by simp
      then show ?thesis by blast
    next
      case False
      with gy y(2) sum show ?thesis by blast
    qed
  qed
qed

lemma pop_exact:
  assumes inv: "pq_inv m key V V g P ((u, p) # pq)" and k: "key_ok m key" and u: "u \<notin> V"
  shows "g u = Some (sdist m (start m) u)"
proof -
  let ?s = "start m"
  let ?L = "sdist m ?s u"
  from pq_inv_entry [OF inv, of u p] obtain tu where tu: "g u = Some tu" "key tu u \<le> p" by auto
  from g_reach [OF inv tu(1)] have ru: "reach m ?s u" and le: "?L \<le> tu" by auto
  from frontier_on_shortest [OF inv ru u, of ?L]
  have "(\<exists>z. z \<notin> V \<and> g z = Some (sdist m ?s z) \<and> reach m z u \<and> sdist m ?s z + sdist m z u = ?L)
         \<or> (\<exists>x. x \<in> V \<and> sdist m ?s x = ?L \<and> reach m x u \<and> ?L + sdist m x u = ?L)"
    by simp
  moreover have "\<not> (\<exists>x. x \<in> V \<and> sdist m ?s x = ?L \<and> reach m x u \<and> ?L + sdist m x u = ?L)"
    using u sdist_zero by (metis add_cancel_right_right)
  ultimately obtain z where z: "z \<notin> V" "g z = Some (sdist m ?s z)" "reach m z u"
    "sdist m ?s z + sdist m z u = ?L" by blast
  from pq_inv_open [OF inv z(2) z(1)] have zin: "(z, key (sdist m ?s z) z) \<in> set ((u, p) # pq)" .
  have "p \<le> key (sdist m ?s z) z"
    using pq_inv_sorted [OF inv] zin by (auto simp: rev_image_eqI)
  also have "\<dots> \<le> key (sdist m ?s z + sdist m z u) u"
    by (rule key_path [OF k z(3) refl])
  finally have "key tu u \<le> key ?L u" using tu(2) z(4) by simp
  then have "tu \<le> ?L" using key_ok_le [OF k] by blast
  with le tu(1) show ?thesis by simp
qed

lemma pq_found:
  assumes inv: "pq_inv m key V V g P ((endc m, p) # pq)" and k: "key_ok m key"
  shows "\<exists>q. reconstructPath P (start m) (endc m) = Some q \<and> walk_to m (start m) (endc m) q
             \<and> length q = Suc (sdist m (start m) (endc m))"
proof -
  have "endc m \<notin> V" using pq_inv_misc [OF inv] by simp
  from pop_exact [OF inv k this] have ge: "g (endc m) = Some (sdist m (start m) (endc m))" .
  from g_chain [OF inv ge] obtain q where q: "chain P (start m) q" "last q = endc m"
    "walk_to m (start m) (endc m) q" "length q \<le> Suc (sdist m (start m) (endc m))" by blast
  from sdist_le [OF q(3)] q(4) have "length q = Suc (sdist m (start m) (endc m))"
    using q(3) by (cases q) (auto simp: walk_to_def walk_def)
  moreover have "reconstructPath P (start m) (endc m) = Some q"
    using reconstruct_chain [OF q(1), of "[]"] q(2) by (simp add: reconstructPath_def)
  ultimately show ?thesis using q(3) by blast
qed

lemma pq_invI:
  assumes "g (start m) = Some 0" "P (start m) = None"
    and "\<And>v t. g v = Some t \<Longrightarrow> v \<noteq> start m
           \<Longrightarrow> \<exists>u tu. P v = Some u \<and> g u = Some tu \<and> v \<in> set (nbrs m u) \<and> Suc tu \<le> t"
    and "\<And>v. v \<in> V \<Longrightarrow> g v = Some (sdist m (start m) v)"
    and "\<And>v w. v \<in> W \<Longrightarrow> w \<in> set (nbrs m v) \<Longrightarrow> \<exists>tv tw. g v = Some tv \<and> g w = Some tw \<and> tw \<le> Suc tv"
    and "\<And>v t. g v = Some t \<Longrightarrow> v \<notin> V \<Longrightarrow> (v, key t v) \<in> set pq"
    and "\<And>v p. (v, p) \<in> set pq \<Longrightarrow> \<exists>t. g v = Some t \<and> key t v \<le> p"
    and "sorted (map snd pq)" "endc m \<notin> V" "W \<subseteq> V"
  shows "pq_inv m key V W g P pq"
  unfolding pq_inv_def using assms by (intro conjI) (blast, blast, blast, blast, blast, blast, fastforce, blast, blast, blast)

lemma grelax_inv:
  assumes inv: "pq_inv m key V W g P pq" and k: "key_ok m key"
    and u: "u \<in> V" "g u = Some tu" and nb: "nb \<in> set (nbrs m u)"
    and r: "grelax key u (Suc tu) nb (g, P, pq) = (g', P', pq')"
  shows "pq_inv m key V W g' P' pq' \<and> g' u = Some tu \<and> (\<exists>tw. g' nb = Some tw \<and> tw \<le> Suc tu)
         \<and> (\<forall>v tv. g v = Some tv \<longrightarrow> (\<exists>tv'. g' v = Some tv' \<and> tv' \<le> tv))"
proof (cases "g nb = None \<or> Suc tu < the (g nb)")
  case False
  then obtain tn where tn: "g nb = Some tn" "tn \<le> Suc tu" by (cases "g nb") auto
  from False r have "g' = g" "P' = P" "pq' = pq" by (auto simp: grelax_def)
  with inv u tn show ?thesis by simp
next
  case True
  let ?s = "start m"
  from True r have eq: "g' = g(nb \<mapsto> Suc tu)" "P' = P(nb \<mapsto> u)" "pq' = enqueue nb (key (Suc tu) nb) pq"
    by (auto simp: grelax_def)
  have lower: "Suc tu < tn" if "g nb = Some tn" for tn using True that by simp
  have ns: "nb \<noteq> ?s" using pq_inv_start [OF inv] lower by fastforce
  have nu: "nb \<noteq> u" using u(2) lower by fastforce
  have tu: "tu = sdist m ?s u" using pq_inv_visited [OF inv u(1)] u(2) by simp
  have ru: "reach m ?s u" using g_reach [OF inv u(2)] by simp
  have nV: "nb \<notin> V"
  proof
    assume "nb \<in> V"
    from pq_inv_visited [OF inv this] lower have "Suc tu < sdist m ?s nb" by simp
    with sdist_step [OF ru nb] tu show False by simp
  qed
  have setpq: "set pq' = insert (nb, key (Suc tu) nb) (set pq)" by (simp add: eq set_enqueue)
  have "pq_inv m key V W g' P' pq'"
  proof (rule pq_invI)
    show "g' ?s = Some 0" "P' ?s = None" using pq_inv_start [OF inv] ns by (auto simp: eq)
    show "endc m \<notin> V" "W \<subseteq> V" using pq_inv_misc [OF inv] by auto
    show "sorted (map snd pq')" by (simp add: eq enqueue_def)
  next
    fix v t assume v: "g' v = Some t" "v \<noteq> ?s"
    show "\<exists>x tx. P' v = Some x \<and> g' x = Some tx \<and> v \<in> set (nbrs m x) \<and> Suc tx \<le> t"
    proof (cases "v = nb")
      case True
      with v have "t = Suc tu" by (simp add: eq)
      then have "P' v = Some u \<and> g' u = Some tu \<and> v \<in> set (nbrs m u) \<and> Suc tu \<le> t"
        using True nu u(2) nb by (simp add: eq)
      then show ?thesis by blast
    next
      case False
      with v have gv: "g v = Some t" by (simp add: eq)
      from pq_inv_parent [OF inv gv v(2)] obtain x tx where
        x: "P v = Some x" "g x = Some tx" "v \<in> set (nbrs m x)" "Suc tx \<le> t" by blast
      show ?thesis
      proof (cases "x = nb")
        case True
        with lower x(2) have "Suc tu < tx" by simp
        then have "P' v = Some x \<and> g' x = Some (Suc tu) \<and> v \<in> set (nbrs m x) \<and> Suc (Suc tu) \<le> t"
          using x True False by (simp add: eq)
        then show ?thesis by blast
      next
        case xn: False
        then have "P' v = Some x \<and> g' x = Some tx \<and> v \<in> set (nbrs m x) \<and> Suc tx \<le> t"
          using x False by (simp add: eq)
        then show ?thesis by blast
      qed
    qed
  next
    fix v assume "v \<in> V"
    then show "g' v = Some (sdist m ?s v)" using pq_inv_visited [OF inv] nV by (auto simp: eq)
  next
    fix v w assume vw: "v \<in> W" "w \<in> set (nbrs m v)"
    from pq_inv_closed [OF inv vw] obtain tv tw where t: "g v = Some tv" "g w = Some tw" "tw \<le> Suc tv"
      by blast
    have "v \<noteq> nb" using vw(1) pq_inv_misc [OF inv] nV by auto
    then have gv: "g' v = Some tv" using t by (simp add: eq)
    show "\<exists>tv tw. g' v = Some tv \<and> g' w = Some tw \<and> tw \<le> Suc tv"
    proof (cases "w = nb")
      case True
      with lower t have "Suc tu < tw" by simp
      then have "g' w = Some (Suc tu) \<and> Suc tu \<le> Suc tv" using True t(3) by (simp add: eq)
      with gv show ?thesis by blast
    next
      case False
      then have "g' w = Some tw" using t by (simp add: eq)
      with gv t(3) show ?thesis by blast
    qed
  next
    fix v t assume v: "g' v = Some t" "v \<notin> V"
    show "(v, key t v) \<in> set pq'"
    proof (cases "v = nb")
      case True
      with v have "t = Suc tu" by (simp add: eq)
      with True show ?thesis by (simp add: setpq)
    next
      case False
      with v have "g v = Some t" by (simp add: eq)
      from pq_inv_open [OF inv this v(2)] show ?thesis by (simp add: setpq)
    qed
  next
    fix v p assume "(v, p) \<in> set pq'"
    then consider "v = nb" "p = key (Suc tu) nb" | "(v, p) \<in> set pq" by (auto simp: setpq)
    then show "\<exists>t. g' v = Some t \<and> key t v \<le> p"
    proof cases
      case 1
      then have "g' v = Some (Suc tu) \<and> key (Suc tu) v \<le> p" by (simp add: eq)
      then show ?thesis by blast
    next
      case 2
      from pq_inv_entry [OF inv 2] obtain t where t: "g v = Some t" "key t v \<le> p" by blast
      show ?thesis
      proof (cases "v = nb")
        case True
        with lower t have "Suc tu \<le> t" by simp
        then have "key (Suc tu) v \<le> key t v" using key_ok_le [OF k] by blast
        with t(2) have "g' v = Some (Suc tu) \<and> key (Suc tu) v \<le> p" using True by (simp add: eq)
        then show ?thesis by blast
      next
        case False
        with t have "g' v = Some t \<and> key t v \<le> p" by (simp add: eq)
        then show ?thesis by blast
      qed
    qed
  qed
  moreover have "g' u = Some tu" using u(2) nu by (simp add: eq)
  moreover have "\<exists>tw. g' nb = Some tw \<and> tw \<le> Suc tu" by (simp add: eq)
  moreover have "\<forall>v tv. g v = Some tv \<longrightarrow> (\<exists>tv'. g' v = Some tv' \<and> tv' \<le> tv)"
  proof (intro allI impI)
    fix v tv assume gv: "g v = Some tv"
    show "\<exists>tv'. g' v = Some tv' \<and> tv' \<le> tv"
    proof (cases "v = nb")
      case True
      with lower gv have "Suc tu \<le> tv" by simp
      with True show ?thesis by (simp add: eq)
    next
      case False
      with gv show ?thesis by (simp add: eq)
    qed
  qed
  ultimately show ?thesis by blast
qed

lemma fold_grelax_inv:
  assumes k: "key_ok m key" and u: "u \<in> V"
  shows "pq_inv m key V W g P pq \<Longrightarrow> g u = Some tu \<Longrightarrow> set ns \<subseteq> set (nbrs m u)
         \<Longrightarrow> fold (grelax key u (Suc tu)) ns (g, P, pq) = (g', P', pq')
         \<Longrightarrow> pq_inv m key V W g' P' pq' \<and> g' u = Some tu
             \<and> (\<forall>w \<in> set ns. \<exists>tw. g' w = Some tw \<and> tw \<le> Suc tu)
             \<and> (\<forall>v tv. g v = Some tv \<longrightarrow> (\<exists>tv'. g' v = Some tv' \<and> tv' \<le> tv))"
proof (induction ns arbitrary: g P pq)
  case Nil
  then show ?case by simp
next
  case (Cons nb ns)
  obtain g1 P1 pq1 where s1: "grelax key u (Suc tu) nb (g, P, pq) = (g1, P1, pq1)"
    by (cases "grelax key u (Suc tu) nb (g, P, pq)") auto
  from Cons.prems(3) have nb: "nb \<in> set (nbrs m u)" and ns: "set ns \<subseteq> set (nbrs m u)" by auto
  from grelax_inv [OF Cons.prems(1) k u Cons.prems(2) nb s1]
  have a: "pq_inv m key V W g1 P1 pq1" "g1 u = Some tu" "\<exists>tw. g1 nb = Some tw \<and> tw \<le> Suc tu"
    "\<forall>v tv. g v = Some tv \<longrightarrow> (\<exists>tv'. g1 v = Some tv' \<and> tv' \<le> tv)" by blast+
  from Cons.prems(4) have f: "fold (grelax key u (Suc tu)) ns (g1, P1, pq1) = (g', P', pq')"
    by (simp add: s1)
  from Cons.IH [OF a(1,2) ns f]
  have b: "pq_inv m key V W g' P' pq'" "g' u = Some tu"
    "\<forall>w \<in> set ns. \<exists>tw. g' w = Some tw \<and> tw \<le> Suc tu"
    "\<forall>v tv. g1 v = Some tv \<longrightarrow> (\<exists>tv'. g' v = Some tv' \<and> tv' \<le> tv)" by blast+
  have mono: "\<forall>v tv. g v = Some tv \<longrightarrow> (\<exists>tv'. g' v = Some tv' \<and> tv' \<le> tv)"
    using a(4) b(4) by (meson le_trans)
  have "\<exists>tw. g' nb = Some tw \<and> tw \<le> Suc tu"
    using a(3) b(4) by (meson le_trans)
  with b(3) have "\<forall>w \<in> set (nb # ns). \<exists>tw. g' w = Some tw \<and> tw \<le> Suc tu" by simp
  with b(1,2) mono show ?case by blast
qed

lemma pq_inv_expand:
  assumes inv: "pq_inv m key V V g P ((u, p) # pq)" and k: "key_ok m key"
    and u: "u \<notin> V" "u \<noteq> endc m"
  shows "pq_inv m key (insert u V) V g P pq"
proof (rule pq_invI)
  show "g (start m) = Some 0" "P (start m) = None" using pq_inv_start [OF inv] by auto
  show "endc m \<notin> insert u V" "V \<subseteq> insert u V" using pq_inv_misc [OF inv] u by auto
  show "sorted (map snd pq)" using pq_inv_sorted [OF inv] by simp
next
  fix v t assume "g v = Some t" "v \<noteq> start m"
  then show "\<exists>x tx. P v = Some x \<and> g x = Some tx \<and> v \<in> set (nbrs m x) \<and> Suc tx \<le> t"
    by (rule pq_inv_parent [OF inv])
next
  fix v assume "v \<in> insert u V"
  then show "g v = Some (sdist m (start m) v)"
    using pq_inv_visited [OF inv] pop_exact [OF inv k u(1)] by blast
next
  fix v w assume "v \<in> V" "w \<in> set (nbrs m v)"
  then show "\<exists>tv tw. g v = Some tv \<and> g w = Some tw \<and> tw \<le> Suc tv"
    by (rule pq_inv_closed [OF inv])
next
  fix v t assume v: "g v = Some t" "v \<notin> insert u V"
  then have "(v, key t v) \<in> set ((u, p) # pq)" using pq_inv_open [OF inv, of v t] by simp
  with v(2) show "(v, key t v) \<in> set pq" by auto
next
  fix v q assume "(v, q) \<in> set pq"
  then show "\<exists>t. g v = Some t \<and> key t v \<le> q" using pq_inv_entry [OF inv, of v q] by simp
qed

lemma pq_inv_close:
  assumes inv: "pq_inv m key V W g P pq" and u: "u \<in> V" "g u = Some tu"
    and c: "\<forall>w \<in> set (nbrs m u). \<exists>tw. g w = Some tw \<and> tw \<le> Suc tu"
  shows "pq_inv m key V (insert u W) g P pq"
proof (rule pq_invI)
  show "g (start m) = Some 0" "P (start m) = None" using pq_inv_start [OF inv] by auto
  show "endc m \<notin> V" "insert u W \<subseteq> V" using pq_inv_misc [OF inv] u by auto
  show "sorted (map snd pq)" using pq_inv_sorted [OF inv] by simp
next
  fix v t assume "g v = Some t" "v \<noteq> start m"
  then show "\<exists>x tx. P v = Some x \<and> g x = Some tx \<and> v \<in> set (nbrs m x) \<and> Suc tx \<le> t"
    by (rule pq_inv_parent [OF inv])
next
  fix v assume "v \<in> V"
  then show "g v = Some (sdist m (start m) v)" by (rule pq_inv_visited [OF inv])
next
  fix v w assume vw: "v \<in> insert u W" "w \<in> set (nbrs m v)"
  show "\<exists>tv tw. g v = Some tv \<and> g w = Some tw \<and> tw \<le> Suc tv"
  proof (cases "v = u")
    case True
    with c vw(2) u(2) show ?thesis by blast
  next
    case False
    with vw have "v \<in> W" by simp
    from pq_inv_closed [OF inv this vw(2)] show ?thesis .
  qed
next
  fix v t assume "g v = Some t" "v \<notin> V"
  then show "(v, key t v) \<in> set pq" by (rule pq_inv_open [OF inv])
next
  fix v q assume "(v, q) \<in> set pq"
  then show "\<exists>t. g v = Some t \<and> key t v \<le> q" by (rule pq_inv_entry [OF inv])
qed

lemma pq_inv_relaxed:
  assumes inv: "pq_inv m key V V g P ((u, p) # pq)" and k: "key_ok m key"
    and u: "u \<notin> V" "u \<noteq> endc m"
  shows "\<exists>tu. g u = Some tu \<and>
           (\<forall>g' P' pq'. fold (grelax key u (Suc tu)) (nbrs m u) (g, P, pq) = (g', P', pq')
              \<longrightarrow> pq_inv m key (insert u V) (insert u V) g' P' pq')"
proof -
  let ?tu = "sdist m (start m) u"
  have gu: "g u = Some ?tu" by (rule pop_exact [OF inv k u(1)])
  have e: "pq_inv m key (insert u V) V g P pq" by (rule pq_inv_expand [OF inv k u])
  have "pq_inv m key (insert u V) (insert u V) g' P' pq'"
    if f: "fold (grelax key u (Suc ?tu)) (nbrs m u) (g, P, pq) = (g', P', pq')" for g' P' pq'
  proof -
    from fold_grelax_inv [OF k _ e gu subset_refl f]
    have r: "pq_inv m key (insert u V) V g' P' pq'" "g' u = Some ?tu"
      "\<forall>w \<in> set (nbrs m u). \<exists>tw. g' w = Some tw \<and> tw \<le> Suc ?tu" by auto
    from pq_inv_close [OF r(1) _ r(2) r(3)] show ?thesis by simp
  qed
  with gu show ?thesis by blast
qed

lemma dijkstra_relax_grelax: "dijkstra_relax c t = grelax (\<lambda>d v. d) c t"
  by (auto simp: dijkstra_relax_def grelax_def fun_eq_iff)

lemma key_ok_dijkstra: "key_ok m (\<lambda>(d::nat) v. d)"
  by (simp add: key_ok_def)

lemma dijkstra_loop_sound:
  "has_rows m \<Longrightarrow> pq_inv m (\<lambda>d v. d) V V g P pq
   \<Longrightarrow> sound m (\<lambda>p. length p = Suc (sdist m (start m) (endc m))) (dijkstra_loop m (pq, V, g, P, n))"
proof (induction m "(pq, V, g, P, n)" arbitrary: pq V g P n rule: dijkstra_loop.induct)
  case (1 m pq V g P n)
  note hr = "1.prems"(1) and inv = "1.prems"(2)
  let ?S = "\<lambda>p. length p = Suc (sdist m (start m) (endc m))"
  note k = key_ok_dijkstra [of m]
  show ?case
  proof (cases pq)
    case Nil
    with pq_inv_empty [OF inv [unfolded Nil]] show ?thesis
      by (simp add: dijkstra_loop.simps isEmpty_def sound_no_path)
  next
    case (Cons e pq1)
    obtain u p where e: "e = (u, p)" by (cases e)
    have ne: "\<not> isEmpty pq" using Cons by (simp add: isEmpty_def)
    note inv' = inv [unfolded Cons e]
    show ?thesis
    proof (cases "u \<in> V")
      case True
      have step: "dijkstra_step m (pq, V, g, P, n) = Inr (pq1, V, g, P, n)"
        using True Cons e by (simp add: dijkstra_step_def)
      from "1.hyps" [OF ne step hr pq_inv_skip [OF inv' True]]
      show ?thesis using ne step by (simp add: dijkstra_loop.simps)
    next
      case uV: False
      show ?thesis
      proof (cases "u = endc m")
        case True
        from pq_found [OF inv' [unfolded True] k]
        obtain q where "reconstructPath P (start m) (endc m) = Some q" "walk_to m (start m) (endc m) q"
          "length q = Suc (sdist m (start m) (endc m))" by blast
        then show ?thesis
          using ne uV True Cons e
          by (simp add: dijkstra_loop.simps dijkstra_step_def sound_found)
      next
        case False
        from pq_inv_relaxed [OF inv' k uV False] obtain tu where tu: "g u = Some tu"
          and r: "\<And>g' P' pq'. fold (grelax (\<lambda>d v. d) u (Suc tu)) (nbrs m u) (g, P, pq1) = (g', P', pq')
                    \<Longrightarrow> pq_inv m (\<lambda>d v. d) (insert u V) (insert u V) g' P' pq'" by blast
        obtain g' P' pq' where f: "fold (grelax (\<lambda>d v. d) u (Suc tu)) (nbrs m u) (g, P, pq1) = (g', P', pq')"
          by (cases "fold (grelax (\<lambda>d v. d) u (Suc tu)) (nbrs m u) (g, P, pq1)") auto
        have step: "dijkstra_step m (pq, V, g, P, n) = Inr (pq', insert u V, g', P', n + 1)"
          using uV False Cons e tu f getNeighbors_nbrs [OF hr, of u]
          by (simp add: dijkstra_step_def Let_def dijkstra_relax_grelax)
        from "1.hyps" [OF ne step hr r [OF f]]
        show ?thesis using ne step by (simp add: dijkstra_loop.simps)
      qed
    qed
  qed
qed

lemma astar_relax_fst:
  "astar_relax hf goal c t nb (g, f, P, pq) = (g', f', P', pq')
   \<Longrightarrow> grelax (\<lambda>d v. real d + hf v goal) c t nb (g, P, pq) = (g', P', pq')"
  by (auto simp: astar_relax_def grelax_def Let_def split: if_splits)

lemma fold_astar_relax_grelax:
  "fold (astar_relax hf goal c t) ns (g, f, P, pq) = (g', f', P', pq')
   \<Longrightarrow> fold (grelax (\<lambda>d v. real d + hf v goal) c t) ns (g, P, pq) = (g', P', pq')"
proof (induction ns arbitrary: g f P pq)
  case Nil
  then show ?case by simp
next
  case (Cons nb ns)
  obtain g1 f1 P1 pq1 where s1: "astar_relax hf goal c t nb (g, f, P, pq) = (g1, f1, P1, pq1)"
    by (cases "astar_relax hf goal c t nb (g, f, P, pq)") auto
  from Cons.prems have "fold (astar_relax hf goal c t) ns (g1, f1, P1, pq1) = (g', f', P', pq')"
    by (simp add: s1)
  from Cons.IH [OF this] astar_relax_fst [OF s1] show ?case by simp
qed

lemma astar_loop_sound:
  "has_rows m \<Longrightarrow> key_ok m (\<lambda>d v. real d + hf v (endc m))
   \<Longrightarrow> pq_inv m (\<lambda>d v. real d + hf v (endc m)) V V g P pq
   \<Longrightarrow> sound m (\<lambda>p. length p = Suc (sdist m (start m) (endc m)))
         (astar_loop m hf sel (pq, V, g, f, P, n))"
proof (induction m hf sel "(pq, V, g, f, P, n)" arbitrary: pq V g f P n rule: astar_loop.induct)
  case (1 m hf sel pq V g f P n)
  note hr = "1.prems"(1) and k = "1.prems"(2) and inv = "1.prems"(3)
  let ?S = "\<lambda>p. length p = Suc (sdist m (start m) (endc m))"
  let ?key = "\<lambda>d v. real d + hf v (endc m)"
  show ?case
  proof (cases pq)
    case Nil
    with pq_inv_empty [OF inv [unfolded Nil]] show ?thesis
      by (simp add: astar_loop.simps isEmpty_def sound_no_path)
  next
    case (Cons e pq1)
    obtain u p where e: "e = (u, p)" by (cases e)
    have ne: "\<not> isEmpty pq" using Cons by (simp add: isEmpty_def)
    note inv' = inv [unfolded Cons e]
    show ?thesis
    proof (cases "u \<in> V")
      case True
      have step: "astar_step m hf sel (pq, V, g, f, P, n) = Inr (pq1, V, g, f, P, n)"
        using True Cons e by (simp add: astar_step_def)
      from "1.hyps" [OF ne step hr k pq_inv_skip [OF inv' True]]
      show ?thesis using ne step by (simp add: astar_loop.simps)
    next
      case uV: False
      show ?thesis
      proof (cases "u = endc m")
        case True
        from pq_found [OF inv' [unfolded True] k]
        obtain q where "reconstructPath P (start m) (endc m) = Some q" "walk_to m (start m) (endc m) q"
          "length q = Suc (sdist m (start m) (endc m))" by blast
        then show ?thesis
          using ne uV True Cons e
          by (simp add: astar_loop.simps astar_step_def sound_found)
      next
        case False
        from pq_inv_relaxed [OF inv' k uV False] obtain tu where tu: "g u = Some tu"
          and r: "\<And>g' P' pq'. fold (grelax ?key u (Suc tu)) (nbrs m u) (g, P, pq1) = (g', P', pq')
                    \<Longrightarrow> pq_inv m ?key (insert u V) (insert u V) g' P' pq'" by blast
        obtain g' f' P' pq' where
          f: "fold (astar_relax hf (endc m) u (Suc tu)) (nbrs m u) (g, f, P, pq1) = (g', f', P', pq')"
          by (cases "fold (astar_relax hf (endc m) u (Suc tu)) (nbrs m u) (g, f, P, pq1)") auto
        have step: "astar_step m hf sel (pq, V, g, f, P, n) = Inr (pq', insert u V, g', f', P', n + 1)"
          using uV False Cons e tu f getNeighbors_nbrs [OF hr, of u]
          by (simp add: astar_step_def Let_def)
        from "1.hyps" [OF ne step hr k r [OF fold_astar_relax_grelax [OF f]]]
        show ?thesis using ne step by (simp add: astar_loop.simps)
      qed
    qed
  qed
qed

lemma manhattan_step: "adjacent a b \<Longrightarrow> manhattanDistance a e \<le> 1 + manhattanDistance b e"
  unfolding adjacent_def manhattanDistance_def by (cases a; cases b; cases e) auto

lemma euclidean_step:
  assumes "adjacent a b"
  shows "euclideanDistance a e \<le> 1 + euclideanDistance b e"
proof -
  obtain ar ac br bc er ec where ab: "a = (ar, ac)" "b = (br, bc)" "e = (er, ec)"
    by (cases a; cases b; cases e) auto
  let ?x = "real_of_int (br - er)" and ?y = "real_of_int (bc - ec)"
  let ?dx = "real_of_int (ar - br)" and ?dy = "real_of_int (ac - bc)"
  have "(ar - br)\<^sup>2 + (ac - bc)\<^sup>2 = 1"
    using assms unfolding ab adjacent_def
    by (auto simp: abs_square_eq_1 [symmetric])
  then have "real_of_int ((ar - br)\<^sup>2 + (ac - bc)\<^sup>2) = 1" by simp
  then have unit: "?dx\<^sup>2 + ?dy\<^sup>2 = 1" by simp
  have "sqrt ((?x + ?dx)\<^sup>2 + (?y + ?dy)\<^sup>2) \<le> sqrt (?x\<^sup>2 + ?y\<^sup>2) + sqrt (?dx\<^sup>2 + ?dy\<^sup>2)"
    by (rule real_sqrt_sum_squares_triangle_ineq)
  moreover have "?x + ?dx = real_of_int (ar - er)" "?y + ?dy = real_of_int (ac - ec)" by simp_all
  ultimately have "sqrt ((real_of_int (ar - er))\<^sup>2 + (real_of_int (ac - ec))\<^sup>2)
                   \<le> sqrt (?x\<^sup>2 + ?y\<^sup>2) + 1"
    using unit by simp
  then show ?thesis by (simp add: euclideanDistance_def ab)
qed

lemma heuristic_step: "adjacent a b \<Longrightarrow> heuristicFunc sel a e \<le> 1 + heuristicFunc sel b e"
  using manhattan_step [of a b e] euclidean_step [of a b e]
  by (auto simp: heuristicFunc_def)

lemma key_ok_astar: "key_ok m (\<lambda>d v. real d + heuristicFunc sel v e)"
  unfolding key_ok_def using heuristic_step [of _ _ sel e]
  by (auto simp: nbrs_iff add.assoc)

section \<open>The claims about the seven algorithms\<close>

text \<open>
  A maze is valid when its grid has its rows and its start and end are walkable cells
  within the bounds. The shortest-path distance is the least number of moves of a route.
\<close>

definition valid_maze :: "maze \<Rightarrow> bool" where
  "valid_maze m \<longleftrightarrow> has_rows m \<and> open_cell m (start m) \<and> open_cell m (endc m)"

definition shortest_distance :: "maze \<Rightarrow> nat \<Rightarrow> bool" where
  "shortest_distance m d \<longleftrightarrow>
     (\<exists>q. route m q \<and> length q - 1 = d) \<and> (\<forall>q. route m q \<longrightarrow> d \<le> length q - 1)"

lemma route_walk: "open_cell m (start m) \<Longrightarrow> route m p \<longleftrightarrow> walk_to m (start m) (endc m) p"
  using walk_valid_path [of m p] by (auto simp: route_def walk_to_def)

lemma route_open: "route m p \<Longrightarrow> open_cell m (start m) \<and> open_cell m (endc m)"
  unfolding route_def valid_path_def list_all_iff
  by (metis hd_in_set last_in_set)

lemma reach_route: "open_cell m (start m) \<Longrightarrow> reach m (start m) (endc m) \<longleftrightarrow> (\<exists>p. route m p)"
  by (simp add: reach_def route_walk)

lemma dfs_sound:
  assumes "valid_maze m"
  shows "sound m (\<lambda>_. True) (dfs m)"
  unfolding dfs_def
  using assms by (intro dfs_loop_sound) (auto simp: valid_maze_def intro: search_init)

lemma greedy_sound:
  assumes "valid_maze m"
  shows "sound m (\<lambda>_. True) (greedy m)"
  unfolding greedy_def
  using assms by (intro greedy_loop_sound) (auto simp: valid_maze_def enqueue_single intro: search_init)

lemma bfs_sound:
  assumes "valid_maze m"
  shows "sound m (\<lambda>p. length p = Suc (sdist m (start m) (endc m))) (bfs m)"
  unfolding bfs_def
  using assms by (intro bfs_loop_sound) (auto simp: valid_maze_def intro: bfs_inv_init)

lemma bidirectional_sound:
  assumes "valid_maze m"
  shows "sound m (\<lambda>p. length p = Suc (sdist m (start m) (endc m))) (bidirectional m)"
  unfolding bidirectional_def
  using assms
  by (intro bidirectional_loop_sound) (auto simp: valid_maze_def bidi_inv_def far_def intro: bfs_inv_init)

lemma dijkstra_sound:
  assumes "valid_maze m"
  shows "sound m (\<lambda>p. length p = Suc (sdist m (start m) (endc m))) (dijkstra m)"
  unfolding dijkstra_def enqueue_single
  using assms pq_inv_init [of m "\<lambda>d v. d"]
  by (intro dijkstra_loop_sound) (auto simp: valid_maze_def)

lemma astar_sound:
  assumes "valid_maze m"
  shows "sound m (\<lambda>p. length p = Suc (sdist m (start m) (endc m))) (astar m sel)"
  unfolding astar_def Let_def enqueue_single
  using assms pq_inv_init [of m "\<lambda>d v. real d + heuristicFunc sel v (endc m)"]
  by (intro astar_loop_sound key_ok_astar) (auto simp: valid_maze_def)

lemma sound_weaken: "sound m Q out \<Longrightarrow> sound m (\<lambda>_. True) out"
  by (auto simp: sound_def split: option.splits)

lemma algoMap_sound:
  assumes "valid_maze m"
  shows "sound m (\<lambda>_. True) (algoMap a m)"
  using dfs_sound [OF assms] greedy_sound [OF assms] bfs_sound [OF assms] bidirectional_sound [OF assms]
    dijkstra_sound [OF assms] astar_sound [OF assms]
  by (cases a) (auto intro: sound_weaken)

lemma algoMap_sound_shortest:
  assumes "valid_maze m" "a \<noteq> DFS" "a \<noteq> Greedy"
  shows "sound m (\<lambda>p. length p = Suc (sdist m (start m) (endc m))) (algoMap a m)"
  using assms bfs_sound [OF assms(1)] bidirectional_sound [OF assms(1)]
    dijkstra_sound [OF assms(1)] astar_sound [OF assms(1)]
  by (cases a) auto

lemma shortest_distanceI:
  assumes o: "open_cell m (start m)" and p: "walk_to m (start m) (endc m) p"
    "length p = Suc (sdist m (start m) (endc m))"
  shows "shortest_distance m (length p - 1)"
proof -
  have "route m p" using p(1) o by (simp add: route_walk)
  moreover have "length p - 1 \<le> length q - 1" if "route m q" for q
    using sdist_le [of m "start m" "endc m" q] that o p(2) by (simp add: route_walk)
  ultimately show ?thesis unfolding shortest_distance_def by blast
qed

text \<open>
  C1. On every maze in which a route connects start and end, each of BFS, Dijkstra, A*
  (with the Manhattan and with the Euclidean heuristic) and bidirectional BFS returns a
  result whose path is a route with length minus 1 equal to the shortest-path distance
  between start and end under 4-directional unit-cost movement.
\<close>

theorem optimal_paths:
  assumes "has_rows m" "route m q" "a \<noteq> DFS" "a \<noteq> Greedy"
  shows "\<exists>r p. algoMap a m = Some (Inr r) \<and> path r = Some p \<and> route m p
               \<and> shortest_distance m (length p - 1)"
proof -
  from route_open [OF assms(2)] assms(1) have v: "valid_maze m" by (simp add: valid_maze_def)
  then have o: "open_cell m (start m)" by (simp add: valid_maze_def)
  have r: "reach m (start m) (endc m)" using assms(2) o by (auto simp: reach_route)
  from algoMap_sound_shortest [OF v assms(3,4)] r
  obtain res p where res: "algoMap a m = Some (Inr res)" "path res = Some p"
    "walk_to m (start m) (endc m) p" "length p = Suc (sdist m (start m) (endc m))"
    by (auto simp: sound_def split: option.splits)
  from shortest_distanceI [OF o res(3,4)] res o show ?thesis by (auto simp: route_walk)
qed

text \<open>
  C2 (as amended). On every valid maze, that is with start and end on walkable cells within
  the bounds, each of the seven algorithms returns a result, and its path is non-null if and
  only if a walkable route exists between start and end.
\<close>

theorem completeness:
  assumes "valid_maze m"
  shows "\<exists>r. algoMap a m = Some (Inr r) \<and> (path r \<noteq> None \<longleftrightarrow> (\<exists>q. route m q))"
proof -
  from assms have o: "open_cell m (start m)" by (simp add: valid_maze_def)
  from algoMap_sound [OF assms, of a] obtain r where r: "algoMap a m = Some (Inr r)"
    "path r = None \<longrightarrow> \<not> reach m (start m) (endc m)"
    "\<forall>p. path r = Some p \<longrightarrow> walk_to m (start m) (endc m) p"
    by (auto simp: sound_def split: option.splits)
  have "path r \<noteq> None \<longleftrightarrow> reach m (start m) (endc m)"
    using r(2,3) by (cases "path r") (auto simp: reach_def)
  then have "path r \<noteq> None \<longleftrightarrow> (\<exists>q. route m q)"
    using o by (simp add: reach_route)
  with r(1) show ?thesis by blast
qed

text \<open>
  C3. On every valid maze, whenever one of the seven algorithms returns a non-null path,
  the path starts at the start, ends at the end, every two consecutive coordinates differ
  by exactly one unit in exactly one axis, and every coordinate on it is a walkable cell
  within the bounds of the grid.
\<close>

theorem returned_path_valid:
  assumes "valid_maze m" "algoMap a m = Some (Inr r)" "path r = Some p"
  shows "p \<noteq> [] \<and> hd p = start m \<and> last p = endc m \<and> successively adjacent p
         \<and> list_all (\<lambda>c. in_bounds m c \<and> walkable m c) p"
proof -
  from assms(1) have o: "open_cell m (start m)" by (simp add: valid_maze_def)
  from algoMap_sound [OF assms(1), of a] assms(2,3) have "walk_to m (start m) (endc m) p"
    by (auto simp: sound_def)
  then have "route m p" using o by (simp add: route_walk)
  then show ?thesis
    by (simp add: route_def valid_path_def open_cell_def [abs_def])
qed

lemma valid_ring3: "valid_maze ring3"
  by (simp add: valid_maze_def has_rows_ring3)
     (simp add: ring3_def open_cell_def in_bounds_def isValid_def walkable_def grid_of_def array_of_def)

lemma route_ring3: "route ring3 [(0, 0), (0, 1), (0, 2), (1, 2), (2, 2)]"
  by (simp add: route_def valid_path_def adjacent_def)
     (simp add: ring3_def open_cell_def in_bounds_def isValid_def walkable_def grid_of_def array_of_def)

theorem optimal_paths_witness:
  "has_rows ring3 \<and> route ring3 [(0, 0), (0, 1), (0, 2), (1, 2), (2, 2)] \<and> Bidirectional \<noteq> DFS
   \<and> Bidirectional \<noteq> Greedy
   \<and> (\<exists>r p. algoMap Bidirectional ring3 = Some (Inr r) \<and> path r = Some p \<and> route ring3 p
            \<and> shortest_distance ring3 (length p - 1))"
  using optimal_paths [OF has_rows_ring3 route_ring3, of Bidirectional] has_rows_ring3 route_ring3
  by simp

theorem completeness_witness:
  "valid_maze ring3
   \<and> (\<exists>r. algoMap Greedy ring3 = Some (Inr r) \<and> (path r \<noteq> None \<longleftrightarrow> (\<exists>q. route ring3 q)))"
  using completeness [OF valid_ring3, of Greedy] valid_ring3 by simp

text \<open>
  The algorithms never look at the cell they start from: \<^verbatim>\<open>getNeighbors\<close> tests only the
  cells around it. The maze left by \<^verbatim>\<open>new Maze(5, 5)\<close>, \<^verbatim>\<open>setStart(1, 2)\<close> and
  \<^verbatim>\<open>generatePerfect()\<close> with every pick the first neighbour has its start on a wall, so no
  route exists in it.
\<close>

definition blocked_start_maze :: maze where
  "blocked_start_maze = projr moved_start_perfect"

definition has_route :: "maze \<Rightarrow> bool" where
  "has_route m \<longleftrightarrow> (\<exists>q. route m q)"

definition returned_path :: "outcome \<Rightarrow> (error + coord list option) option" where
  "returned_path = map_option (map_sum id path)"

lemma moved_start_perfect_returns: "\<not> isl moved_start_perfect"
  by code_simp

lemma blocked_start_maze_wall: "\<not> open_cell blocked_start_maze (start blocked_start_maze)"
  by code_simp

lemma blocked_start_bfs:
  "returned_path (bfs blocked_start_maze) = Some (Inr (Some [(1, 2), (1, 3), (2, 3), (3, 3)]))"
  by code_simp

text \<open>
  C2 as stated, for every maze, start and end, fails: in that maze no route exists, and
  breadth-first search returns a path, which leaves the wall under the start.
\<close>

theorem blocked_start_path_returned:
  "moved_start_perfect = Inr blocked_start_maze \<and> \<not> has_route blocked_start_maze
   \<and> returned_path (algoMap BFS blocked_start_maze)
       = Some (Inr (Some [(1, 2), (1, 3), (2, 3), (3, 3)]))"
proof -
  have "moved_start_perfect = Inr blocked_start_maze"
    using moved_start_perfect_returns by (simp add: blocked_start_maze_def)
  moreover have "\<not> has_route blocked_start_maze"
    using blocked_start_maze_wall route_open [of blocked_start_maze] by (auto simp: has_route_def)
  ultimately show ?thesis using blocked_start_bfs by simp
qed

definition bfs_ring3_result :: result where
  "bfs_ring3_result =
     \<lparr> path = Some [(0, 0), (1, 0), (2, 0), (2, 1), (2, 2)], nodesExplored = 8, optimal = True,
       heuristic = None \<rparr>"

lemma bfs_ring3_eval: "bfs ring3 = Some (Inr bfs_ring3_result)"
  by code_simp

lemma bfs_ring3: "algoMap BFS ring3 = Some (Inr bfs_ring3_result)"
  by (simp add: bfs_ring3_eval)

theorem returned_path_valid_witness:
  "valid_maze ring3 \<and> algoMap BFS ring3 = Some (Inr bfs_ring3_result)
   \<and> path bfs_ring3_result = Some [(0, 0), (1, 0), (2, 0), (2, 1), (2, 2)]
   \<and> hd [(0, 0), (1, 0), (2, 0), (2, 1), (2, 2)] = start ring3
   \<and> last [(0, 0), (1, 0), (2, 0), (2, 1), (2, 2)] = endc ring3
   \<and> successively adjacent [(0, 0), (1, 0), (2, 0), (2, 1), (2, 2)]
   \<and> list_all (\<lambda>c. in_bounds ring3 c \<and> walkable ring3 c) [(0, 0), (1, 0), (2, 0), (2, 1), (2, 2)]"
proof -
  have p: "path bfs_ring3_result = Some [(0, 0), (1, 0), (2, 0), (2, 1), (2, 2)]"
    by (simp add: bfs_ring3_result_def)
  from returned_path_valid [OF valid_ring3 bfs_ring3 p] valid_ring3 bfs_ring3 p
  show ?thesis by blast
qed

end
